theory Spec2Isabelle
  imports Main
begin

section \<open>The lexer of \<^verbatim>\<open>lexer_rat25f.py\<close>\<close>

subsection \<open>Token kinds and the static tables\<close>

datatype TokenType =
  KEYWORD | IDENTIFIER | INTEGER | REAL | OPERATOR | SEPARATOR | STRING | COMMENT | EOF | UNKNOWN

type_synonym token = "TokenType \<times> string"

definition KEYWORDS :: "string set" where
  "KEYWORDS = {''while'', ''if'', ''else'', ''for'', ''int'', ''float'', ''bool'', ''true'',
     ''false'', ''function'', ''return'', ''read'', ''write'', ''then'', ''fi'', ''do'', ''od''}"

definition SEPARATORS :: "string set" where
  "SEPARATORS = {''('', '')'', ''{'', ''}'', ''['', '']'', '','', '';'', '':''}"

definition MULTI_CHAR_OPS :: "string set" where
  "MULTI_CHAR_OPS = {''<='', ''>='', ''=='', ''!='', ''&&'', ''||''}"

definition SINGLE_CHAR_OPS :: "string set" where
  "SINGLE_CHAR_OPS = {''+'', ''-'', ''*'', ''/'', ''%'', ''='', ''<'', ''>'', ''!''}"

subsection \<open>Python's \<^verbatim>\<open>str\<close> predicates\<close>

text \<open>
  A Python \<^verbatim>\<open>str\<close> is a sequence of code points. The model takes the code points below 256,
  which is what \<^typ>\<open>char\<close> holds, and tabulates \<^verbatim>\<open>isalpha\<close>, \<^verbatim>\<open>isdigit\<close>,
  \<^verbatim>\<open>isalnum\<close> and \<^verbatim>\<open>isspace\<close> on them as Python's Unicode database does: besides the
  ASCII letters and digits there are letters such as \<^verbatim>\<open>U+00E9\<close>, the superscript digits
  \<^verbatim>\<open>U+00B2\<close>, \<^verbatim>\<open>U+00B3\<close>, \<^verbatim>\<open>U+00B9\<close> (digits for \<^verbatim>\<open>isdigit\<close>), the fractions
  \<^verbatim>\<open>U+00BC\<close> to \<^verbatim>\<open>U+00BE\<close> (alphanumeric, neither letter nor digit) and the blanks
  \<^verbatim>\<open>U+001C\<close> to \<^verbatim>\<open>U+001F\<close>, \<^verbatim>\<open>U+0085\<close>, \<^verbatim>\<open>U+00A0\<close>.
  A method of \<^verbatim>\<open>str\<close> holds of a string when the string is not empty and every character
  passes; \<^verbatim>\<open>peek\<close> below returns a string of one character, or the empty string.
\<close>

definition isalpha_char :: "char \<Rightarrow> bool" where
  "isalpha_char c = (let k = (of_char c :: nat) in
     (65 \<le> k \<and> k \<le> 90) \<or> (97 \<le> k \<and> k \<le> 122) \<or> k = 170 \<or> k = 181 \<or> k = 186
     \<or> (192 \<le> k \<and> k \<le> 214) \<or> (216 \<le> k \<and> k \<le> 246) \<or> 248 \<le> k)"

definition isdigit_char :: "char \<Rightarrow> bool" where
  "isdigit_char c = (let k = (of_char c :: nat) in
     (48 \<le> k \<and> k \<le> 57) \<or> k = 178 \<or> k = 179 \<or> k = 185)"

definition isalnum_char :: "char \<Rightarrow> bool" where
  "isalnum_char c = (let k = (of_char c :: nat) in
     isalpha_char c \<or> isdigit_char c \<or> (188 \<le> k \<and> k \<le> 190))"

definition isspace_char :: "char \<Rightarrow> bool" where
  "isspace_char c = (let k = (of_char c :: nat) in
     (9 \<le> k \<and> k \<le> 13) \<or> (28 \<le> k \<and> k \<le> 32) \<or> k = 133 \<or> k = 160)"

definition str_isalpha :: "string \<Rightarrow> bool" where
  "str_isalpha s = (s \<noteq> [] \<and> list_all isalpha_char s)"

definition str_isdigit :: "string \<Rightarrow> bool" where
  "str_isdigit s = (s \<noteq> [] \<and> list_all isdigit_char s)"

definition str_isalnum :: "string \<Rightarrow> bool" where
  "str_isalnum s = (s \<noteq> [] \<and> list_all isalnum_char s)"

definition str_isspace :: "string \<Rightarrow> bool" where
  "str_isspace s = (s \<noteq> [] \<and> list_all isspace_char s)"

text \<open>\<^verbatim>\<open>sub in s\<close> on two strings: \<^verbatim>\<open>sub\<close> occurs in \<^verbatim>\<open>s\<close> as a contiguous slice.\<close>

fun str_in :: "string \<Rightarrow> string \<Rightarrow> bool" where
  "str_in sub [] = (sub = [])"
| "str_in sub (c # cs) = (take (length sub) (c # cs) = sub \<or> str_in sub cs)"

text \<open>\<^verbatim>\<open>s[a:b]\<close> for indices that are not negative.\<close>

definition slice :: "string \<Rightarrow> nat \<Rightarrow> nat \<Rightarrow> string" where
  "slice s a b = take (b - a) (drop a s)"

definition is_letter :: "string \<Rightarrow> bool" where
  "is_letter ch = str_isalpha ch"

definition is_digit :: "string \<Rightarrow> bool" where
  "is_digit ch = str_isdigit ch"

definition is_alnum :: "string \<Rightarrow> bool" where
  "is_alnum ch = str_isalnum ch"

subsection \<open>The scanner cursor\<close>

text \<open>
  The fields of \<^verbatim>\<open>Lexer\<close>. The constructor sets \<^verbatim>\<open>n\<close> to the length of the text and no
  method assigns \<^verbatim>\<open>text\<close> or \<^verbatim>\<open>n\<close> again, so \<^verbatim>\<open>peek\<close> never indexes out of range in a
  state that comes from the constructor.
\<close>

record lexer =
  "text" :: string
  i :: nat
  n :: nat

definition Lexer :: "string \<Rightarrow> lexer" where
  "Lexer s = \<lparr>text = s, i = 0, n = length s\<rparr>"

definition peek :: "lexer \<Rightarrow> nat \<Rightarrow> string" where
  "peek L k = (let idx = i L + k in if idx < n L then [text L ! idx] else [])"

definition advance :: "lexer \<Rightarrow> nat \<Rightarrow> lexer" where
  "advance L steps = L\<lparr>i := i L + steps\<rparr>"

definition eof :: "lexer \<Rightarrow> bool" where
  "eof L = (i L \<ge> n L)"

text \<open>
  The loop \<^verbatim>\<open>while not self.eof() and cond: self.advance()\<close>, which every scanning loop of
  the lexer is an instance of, with the condition a function of the lexer.
\<close>

function advance_while :: "(lexer \<Rightarrow> bool) \<Rightarrow> lexer \<Rightarrow> lexer" where
  "advance_while cond L = (if \<not> eof L \<and> cond L then advance_while cond (advance L 1) else L)"
  by pat_completeness auto
termination
  by (relation "measure (\<lambda>(cond, L). n L - i L)") (auto simp: eof_def advance_def)

declare advance_while.simps [simp del]

definition skip_whitespace :: "lexer \<Rightarrow> lexer" where
  "skip_whitespace L = advance_while (\<lambda>L. str_isspace (peek L 0)) L"

subsection \<open>The recognizers\<close>

text \<open>
  A recognizer returns its token, or \<open>None\<close>, together with the lexer it leaves behind.
\<close>

definition skip_comments :: "lexer \<Rightarrow> token option \<times> lexer" where
  "skip_comments L =
     (if peek L 0 = ''/'' \<and> peek L 1 = ''/'' then
        let start = i L;
            L1 = advance_while (\<lambda>L. peek L 0 \<noteq> [CHR 0x0A]) L;
            lexeme = slice (text L1) start (i L1)
        in (Some (COMMENT, lexeme), L1)
      else if peek L 0 = ''/'' \<and> peek L 1 = ''*'' then
        let start = i L;
            L1 = advance L 2;
            L2 = advance_while (\<lambda>L. \<not> (peek L 0 = ''*'' \<and> peek L 1 = ''/'')) L1;
            L3 = (if \<not> eof L2 then advance L2 2 else L2);
            lexeme = slice (text L3) start (i L3)
        in (Some (COMMENT, lexeme), L3)
      else (None, L))"

text \<open>
  The loop of \<^verbatim>\<open>lex_identifier\<close> is \<^verbatim>\<open>while not self.eof()\<close> with a \<^verbatim>\<open>break\<close> when the
  character is neither alphanumeric nor an underscore.
\<close>

definition lex_identifier :: "lexer \<Rightarrow> token option \<times> lexer" where
  "lex_identifier L =
     (if \<not> is_letter (peek L 0) then (None, L)
      else
        let start = i L;
            L1 = advance L 1;
            L2 = advance_while (\<lambda>L. is_alnum (peek L 0) \<or> peek L 0 = ''_'') L1;
            lexeme = slice (text L2) start (i L2)
        in if lexeme \<in> KEYWORDS then (Some (KEYWORD, lexeme), L2)
           else (Some (IDENTIFIER, lexeme), L2))"

definition lex_integer :: "lexer \<Rightarrow> token option \<times> lexer" where
  "lex_integer L =
     (if \<not> is_digit (peek L 0) then (None, L)
      else
        let start = i L in
        if peek L 0 = ''0'' then
          let L1 = advance L 1 in
          if peek L1 0 \<noteq> ''.'' then (Some (INTEGER, slice (text L1) start (i L1)), L1)
          else (None, L1\<lparr>i := start\<rparr>)
        else if str_in (peek L 0) ''123456789'' then
          let L1 = advance L 1;
              L2 = advance_while (\<lambda>L. is_digit (peek L 0)) L1
          in if peek L2 0 = ''.'' then (None, L2\<lparr>i := start\<rparr>)
             else (Some (INTEGER, slice (text L2) start (i L2)), L2)
        else (None, L))"

definition lex_real :: "lexer \<Rightarrow> token option \<times> lexer" where
  "lex_real L =
     (let start = i L; i0 = i L in
      if \<not> is_digit (peek L 0) then (None, L)
      else
        let L1 = advance_while (\<lambda>L. is_digit (peek L 0)) L in
        if peek L1 0 \<noteq> ''.'' then (None, L1\<lparr>i := i0\<rparr>)
        else
          let L2 = advance L1 1 in
          if \<not> is_digit (peek L2 0) then (None, L2\<lparr>i := i0\<rparr>)
          else
            let L3 = advance_while (\<lambda>L. is_digit (peek L 0)) L2 in
            if peek L3 0 \<in> set [''e'', ''E''] then
              let L4 = advance L3 1;
                  L5 = (if peek L4 0 \<in> set [''+'', ''-''] then advance L4 1 else L4)
              in if \<not> is_digit (peek L5 0) then (None, L5\<lparr>i := i0\<rparr>)
                 else
                   let L6 = advance_while (\<lambda>L. is_digit (peek L 0)) L5
                   in (Some (REAL, slice (text L6) start (i L6)), L6)
            else (Some (REAL, slice (text L3) start (i L3)), L3))"

text \<open>
  The loop of \<^verbatim>\<open>lex_string\<close> runs while the character is not a double quote and leaves
  with \<^verbatim>\<open>break\<close> at a newline.
\<close>

definition lex_string :: "lexer \<Rightarrow> token option \<times> lexer" where
  "lex_string L =
     (if peek L 0 \<noteq> [CHR 0x22] then (None, L)
      else
        let start = i L;
            L1 = advance L 1;
            L2 = advance_while (\<lambda>L. peek L 0 \<noteq> [CHR 0x22] \<and> peek L 0 \<noteq> [CHR 0x0A]) L1;
            L3 = (if peek L2 0 = [CHR 0x22] then advance L2 1 else L2)
        in (Some (STRING, slice (text L3) start (i L3)), L3))"

definition lex_operator_or_separator :: "lexer \<Rightarrow> token option \<times> lexer" where
  "lex_operator_or_separator L =
     (let two = peek L 0 @ peek L 1 in
      if two \<in> MULTI_CHAR_OPS then (Some (OPERATOR, two), advance L 2)
      else
        let ch = peek L 0 in
        if ch \<in> SINGLE_CHAR_OPS then (Some (OPERATOR, ch), advance L 1)
        else if ch \<in> SEPARATORS then (Some (SEPARATOR, ch), advance L 1)
        else (None, L))"

subsection \<open>The dispatch loop\<close>

text \<open>
  The \<^verbatim>\<open>for fn in (...)\<close> loop of \<^verbatim>\<open>next_token\<close>: the position is saved, the recognizer
  runs, and when it returns \<^verbatim>\<open>None\<close> the position is put back before the next one runs.
\<close>

fun try_recognizers :: "(lexer \<Rightarrow> token option \<times> lexer) list \<Rightarrow> lexer \<Rightarrow> token option \<times> lexer" where
  "try_recognizers [] L = (None, L)"
| "try_recognizers (fn # fns) L =
     (let here = i L in
      case fn L of
        (Some tok, L') \<Rightarrow> (Some tok, L')
      | (None, L') \<Rightarrow> try_recognizers fns (L'\<lparr>i := here\<rparr>))"

text \<open>
  Every path through the body of \<^verbatim>\<open>while not self.eof()\<close> in \<^verbatim>\<open>next_token\<close> ends in
  \<^verbatim>\<open>return\<close> or \<^verbatim>\<open>break\<close>, so the body runs at most once.
\<close>

definition next_token :: "lexer \<Rightarrow> token \<times> lexer" where
  "next_token L =
     (if eof L then ((EOF, ''''), L)
      else
        let L1 = skip_whitespace L in
        case skip_comments L1 of
          (Some com, L2) \<Rightarrow> (com, L2)
        | (None, L2) \<Rightarrow>
            if eof L2 then ((EOF, ''''), L2)
            else
              (case try_recognizers
                      [lex_real, lex_integer, lex_identifier, lex_string, lex_operator_or_separator] L2 of
                 (Some tok, L3) \<Rightarrow> (tok, L3)
               | (None, L3) \<Rightarrow> let ch = peek L3 0 in ((UNKNOWN, ch), advance L3 1)))"

subsection \<open>The token stream\<close>

text \<open>
  The tokens that calling \<^verbatim>\<open>next_token\<close> again and again returns, up to and including the
  first \<^verbatim>\<open>EOF\<close>. These are the calls that the loop \<^verbatim>\<open>while True\<close> of \<^verbatim>\<open>lex_file\<close> makes;
  reading the file, dropping the comments and writing the rows are not modelled. The loop
  has no bound of its own, so the result is an option and \<open>None\<close> stands for a loop that
  does not end.
\<close>

partial_function (option) tokens_from :: "lexer \<Rightarrow> token list option" where
  "tokens_from L =
     (case next_token L of
        (tok, L') \<Rightarrow>
          if fst tok = EOF then Some [tok]
          else Option.bind (tokens_from L') (\<lambda>rest. Some (tok # rest)))"

definition tokenize :: "string \<Rightarrow> token list option" where
  "tokenize s = tokens_from (Lexer s)"

declare tokens_from.simps [code]

declare try_recognizers.simps [simp del]

section \<open>Properties\<close>

subsection \<open>The scanning loop\<close>

lemma advance_while_text [simp]: "text (advance_while c L) = text L"
  by (induction c L rule: advance_while.induct) (subst advance_while.simps, auto simp: advance_def)

lemma advance_while_n [simp]: "n (advance_while c L) = n L"
  by (induction c L rule: advance_while.induct) (subst advance_while.simps, auto simp: advance_def)

lemma advance_while_more [simp]: "lexer.more (advance_while c L) = lexer.more L"
  by (induction c L rule: advance_while.induct) (subst advance_while.simps, auto simp: advance_def)

lemma advance_while_mono: "i L \<le> i (advance_while c L)"
  by (induction c L rule: advance_while.induct) (subst advance_while.simps, auto simp: advance_def)

lemma advance_while_bound: "i L \<le> n L \<Longrightarrow> i (advance_while c L) \<le> n L"
  by (induction c L rule: advance_while.induct) (subst advance_while.simps, auto simp: advance_def eof_def)

lemma advance_while_stop: "eof (advance_while c L) \<or> \<not> c (advance_while c L)"
  by (induction c L rule: advance_while.induct) (subst (1 2) advance_while.simps, auto)

lemma advance_while_step: "\<not> eof L \<Longrightarrow> c L \<Longrightarrow> i L < i (advance_while c L)"
  using advance_while_mono [of "advance L 1" c]
  by (subst advance_while.simps) (simp add: advance_def)


subsection \<open>What the recognizers leave behind\<close>

lemma lexer_eqI: "text L' = text L \<Longrightarrow> n L' = n L \<Longrightarrow> L' = L\<lparr>i := i L'\<rparr>" for L L' :: lexer
  by (cases L; cases L') simp

lemma peek_nonempty: "peek L k \<noteq> [] \<Longrightarrow> i L + k < n L"
  by (simp add: peek_def Let_def split: if_splits)

lemma peek_eq_single: "peek L k = [c] \<Longrightarrow> i L + k < n L"
  by (simp add: peek_def Let_def split: if_splits)


lemma is_letter_peek: "is_letter (peek L k) \<Longrightarrow> i L + k < n L"
  by (simp add: is_letter_def str_isalpha_def peek_nonempty)

lemma peek_fields [simp]:
  "peek (advance L k) j = peek L (k + j)"
  by (simp add: peek_def advance_def add.assoc Let_def)

text \<open>No recognizer touches the text or its length.\<close>

lemma skip_comments_frame: "text (snd (skip_comments L)) = text L \<and> n (snd (skip_comments L)) = n L"
  by (simp add: skip_comments_def Let_def advance_def)

lemma lex_identifier_frame: "text (snd (lex_identifier L)) = text L \<and> n (snd (lex_identifier L)) = n L"
  by (simp add: lex_identifier_def Let_def advance_def)

lemma lex_integer_frame: "text (snd (lex_integer L)) = text L \<and> n (snd (lex_integer L)) = n L"
  by (simp add: lex_integer_def Let_def advance_def)

lemma lex_real_frame: "text (snd (lex_real L)) = text L \<and> n (snd (lex_real L)) = n L"
  by (simp add: lex_real_def Let_def advance_def)

lemma lex_string_frame: "text (snd (lex_string L)) = text L \<and> n (snd (lex_string L)) = n L"
  by (simp add: lex_string_def Let_def advance_def)

lemma lex_operator_or_separator_frame:
  "text (snd (lex_operator_or_separator L)) = text L \<and> n (snd (lex_operator_or_separator L)) = n L"
  by (simp add: lex_operator_or_separator_def Let_def advance_def)

text \<open>A recognizer that returns \<open>None\<close> returns the lexer it was given.\<close>

lemma skip_comments_None: "fst (skip_comments L) = None \<Longrightarrow> snd (skip_comments L) = L"
  by (auto simp add: skip_comments_def Let_def split: if_splits)





lemma restore: "text L' = text L \<Longrightarrow> n L' = n L \<Longrightarrow> L'\<lparr>i := i L\<rparr> = L" for L L' :: lexer
  by (cases L; cases L') simp


lemma slice_peek0: "n L = length (text L) \<Longrightarrow> i L < n L \<Longrightarrow> peek L 0 = slice (text L) (i L) (Suc (i L))"
  by (simp add: peek_def slice_def Let_def take_Suc_conv_app_nth hd_drop_conv_nth
         flip: Cons_nth_drop_Suc)

lemma slice_peek01: "n L = length (text L) \<Longrightarrow> Suc (i L) < n L \<Longrightarrow>
    peek L 0 @ peek L (Suc 0) = slice (text L) (i L) (Suc (Suc (i L)))"
  by (simp add: peek_def slice_def Let_def flip: Cons_nth_drop_Suc)

lemma advance_fields [simp]:
  "i (advance L k) = i L + k" "text (advance L k) = text L" "n (advance L k) = n L"
  by (simp_all add: advance_def)

lemma length_peek: "length (peek L k) \<le> 1"
  by (simp add: peek_def Let_def)

lemma multi_len: "two \<in> MULTI_CHAR_OPS \<Longrightarrow> length two = 2"
  by (auto simp: MULTI_CHAR_OPS_def)

lemma single_len: "ch \<in> SINGLE_CHAR_OPS \<Longrightarrow> length ch = 1"
  by (auto simp: SINGLE_CHAR_OPS_def)

lemma sep_len: "ch \<in> SEPARATORS \<Longrightarrow> length ch = 1"
  by (auto simp: SEPARATORS_def)

lemma peek_len1: "length (peek L k) = 1 \<Longrightarrow> i L + k < n L"
  by (simp add: peek_def Let_def split: if_splits)

lemma peek_two: "length (peek L 0 @ peek L 1) = 2 \<Longrightarrow> Suc (i L) < n L"
  by (simp add: peek_def Let_def split: if_splits)

lemma peek_two': "peek L 0 @ peek L 1 \<in> MULTI_CHAR_OPS \<Longrightarrow> Suc (i L) < n L"
  using multi_len [of "peek L 0 @ peek L 1"] peek_two [of L] by simp

lemma peek_one_op: "peek L 0 \<in> SINGLE_CHAR_OPS \<Longrightarrow> i L < n L"
  using single_len [of "peek L 0"] peek_len1 [of L 0] by simp

lemma peek_one_sep: "peek L 0 \<in> SEPARATORS \<Longrightarrow> i L < n L"
  using sep_len [of "peek L 0"] peek_len1 [of L 0] by simp

lemma lex_operator_or_separator_Some:
  assumes "fst (lex_operator_or_separator L) = Some (k, lx)"
  shows "k \<noteq> EOF \<and> i L < i (snd (lex_operator_or_separator L)) \<and>
         (n L = length (text L) \<longrightarrow> lx = slice (text L) (i L) (i (snd (lex_operator_or_separator L))))"
proof (cases "peek L 0 @ peek L 1 \<in> MULTI_CHAR_OPS")
  case True
  with assms peek_two' [OF True] show ?thesis
    by (auto simp: lex_operator_or_separator_def Let_def advance_def slice_peek01)
next
  case multi: False
  show ?thesis
  proof (cases "peek L 0 \<in> SINGLE_CHAR_OPS")
    case True
    with multi assms peek_one_op [OF True] show ?thesis
      by (auto simp: lex_operator_or_separator_def Let_def advance_def slice_peek0)
  next
    case single: False
    show ?thesis
    proof (cases "peek L 0 \<in> SEPARATORS")
      case True
      with multi single assms peek_one_sep [OF True] show ?thesis
        by (auto simp: lex_operator_or_separator_def Let_def advance_def slice_peek0)
    next
      case False
      with multi single assms show ?thesis
        by (simp add: lex_operator_or_separator_def Let_def)
    qed
  qed
qed

lemma slice_advance_while [simp]: "slice (text (advance_while c L)) a b = slice (text L) a b"
  by simp

lemma lex_string_Some:
  assumes "fst (lex_string L) = Some (k, lx)"
  shows "k \<noteq> EOF \<and> i L < i (snd (lex_string L)) \<and>
         (n L = length (text L) \<longrightarrow> lx = slice (text L) (i L) (i (snd (lex_string L))))"
  using assms advance_while_mono [of "advance L 1" "\<lambda>L. peek L 0 \<noteq> [CHR 0x22] \<and> peek L 0 \<noteq> [CHR 0x0A]"]
  by (auto simp: lex_string_def Let_def advance_def split: if_splits)

lemma lex_identifier_Some:
  assumes "fst (lex_identifier L) = Some (k, lx)"
  shows "k \<noteq> EOF \<and> i L < i (snd (lex_identifier L)) \<and>
         (n L = length (text L) \<longrightarrow> lx = slice (text L) (i L) (i (snd (lex_identifier L))))"
  using assms advance_while_mono [of "advance L 1" "\<lambda>L. is_alnum (peek L 0) \<or> peek L 0 = ''_''"]
  by (auto simp: lex_identifier_def Let_def advance_def split: if_splits)

lemma lex_integer_Some:
  assumes "fst (lex_integer L) = Some (k, lx)"
  shows "k \<noteq> EOF \<and> i L < i (snd (lex_integer L)) \<and>
         (n L = length (text L) \<longrightarrow> lx = slice (text L) (i L) (i (snd (lex_integer L))))"
  using assms advance_while_mono [of "advance L 1" "\<lambda>L. is_digit (peek L 0)"]
  by (auto simp: lex_integer_def Let_def advance_def split: if_splits)

lemma lex_real_Some:
  assumes "fst (lex_real L) = Some (k, lx)"
  shows "k \<noteq> EOF \<and> i L < i (snd (lex_real L)) \<and>
         (n L = length (text L) \<longrightarrow> lx = slice (text L) (i L) (i (snd (lex_real L))))"
proof -
  let ?d = "\<lambda>L. is_digit (peek L 0)"
  let ?L1 = "advance_while ?d L"
  let ?L3 = "advance_while ?d (advance ?L1 1)"
  let ?L4 = "advance ?L3 1"
  let ?L5 = "if peek ?L4 0 \<in> set [''+'', ''-''] then advance ?L4 1 else ?L4"
  let ?L6 = "advance_while ?d ?L5"
  have 1: "i L \<le> i ?L1" by (rule advance_while_mono)
  have 3: "i ?L1 < i ?L3"
    using advance_while_mono [of "advance ?L1 1" ?d] by simp
  have 5: "i ?L3 < i ?L5" by simp
  have 6: "i ?L5 \<le> i ?L6" by (rule advance_while_mono)
  from assms 1 3 5 6 show ?thesis
    by (auto simp: lex_real_def Let_def split: if_splits)
qed

lemma skip_comments_Some:
  assumes "fst (skip_comments L) = Some (k, lx)"
  shows "k \<noteq> EOF \<and> i L < i (snd (skip_comments L)) \<and>
         (n L = length (text L) \<longrightarrow> lx = slice (text L) (i L) (i (snd (skip_comments L))))"
proof -
  have a: "peek L 0 = ''/'' \<Longrightarrow> i L < i (advance_while (\<lambda>L. peek L 0 \<noteq> [CHR 0x0A]) L)"
    by (rule advance_while_step) (auto simp: eof_def dest: peek_eq_single)
  have b: "i (advance L 2) \<le> i (advance_while (\<lambda>L. \<not> (peek L 0 = ''*'' \<and> peek L 1 = ''/'')) (advance L 2))"
    by (rule advance_while_mono)
  from assms a b show ?thesis
    by (auto simp: skip_comments_def Let_def advance_def split: if_splits)
qed

subsection \<open>The dispatch loop\<close>

lemma try_step:
  assumes "text (snd (fn L)) = text L \<and> n (snd (fn L)) = n L"
  shows "try_recognizers (fn # fns) L = (if fst (fn L) \<noteq> None then fn L else try_recognizers fns L)"
  using assms by (cases "fn L") (auto simp: restore try_recognizers.simps split: option.splits)

lemma dispatch_unfold:
  "try_recognizers [lex_real, lex_integer, lex_identifier, lex_string, lex_operator_or_separator] L =
     (if fst (lex_real L) \<noteq> None then lex_real L
      else if fst (lex_integer L) \<noteq> None then lex_integer L
      else if fst (lex_identifier L) \<noteq> None then lex_identifier L
      else if fst (lex_string L) \<noteq> None then lex_string L
      else if fst (lex_operator_or_separator L) \<noteq> None then lex_operator_or_separator L
      else (None, L))"
  by (simp only: try_step [OF lex_real_frame] try_step [OF lex_integer_frame]
        try_step [OF lex_identifier_frame] try_step [OF lex_string_frame]
        try_step [OF lex_operator_or_separator_frame] try_recognizers.simps)

lemma dispatch_result:
  "(try_recognizers [lex_real, lex_integer, lex_identifier, lex_string, lex_operator_or_separator] L = (None, L))
   \<or> (\<exists>fn \<in> {lex_real, lex_integer, lex_identifier, lex_string, lex_operator_or_separator}.
         fst (fn L) \<noteq> None \<and>
         try_recognizers [lex_real, lex_integer, lex_identifier, lex_string, lex_operator_or_separator] L = fn L)"
  unfolding dispatch_unfold by simp

lemma recognizer_good:
  assumes "fn \<in> {lex_real, lex_integer, lex_identifier, lex_string, lex_operator_or_separator}"
    and "fn L = (Some (k, lx), L')"
  shows "k \<noteq> EOF \<and> i L < i L' \<and> text L' = text L \<and> n L' = n L \<and>
         (n L = length (text L) \<longrightarrow> lx = slice (text L) (i L) (i L'))"
proof -
  from assms(1) consider "fn = lex_real" | "fn = lex_integer" | "fn = lex_identifier"
    | "fn = lex_string" | "fn = lex_operator_or_separator" by blast
  then show ?thesis
  proof cases
    case 1
    with assms(2) lex_real_Some [of L k lx] lex_real_frame [of L] show ?thesis by simp
  next
    case 2
    with assms(2) lex_integer_Some [of L k lx] lex_integer_frame [of L] show ?thesis by simp
  next
    case 3
    with assms(2) lex_identifier_Some [of L k lx] lex_identifier_frame [of L] show ?thesis by simp
  next
    case 4
    with assms(2) lex_string_Some [of L k lx] lex_string_frame [of L] show ?thesis by simp
  next
    case 5
    with assms(2) lex_operator_or_separator_Some [of L k lx] lex_operator_or_separator_frame [of L]
    show ?thesis by simp
  qed
qed

lemma dispatch_None:
  assumes "try_recognizers [lex_real, lex_integer, lex_identifier, lex_string, lex_operator_or_separator] L = (None, L')"
  shows "L' = L"
proof -
  from dispatch_result [of L] show ?thesis
  proof
    assume "try_recognizers [lex_real, lex_integer, lex_identifier, lex_string, lex_operator_or_separator] L = (None, L)"
    with assms show ?thesis by simp
  next
    assume "\<exists>fn \<in> {lex_real, lex_integer, lex_identifier, lex_string, lex_operator_or_separator}.
         fst (fn L) \<noteq> None \<and>
         try_recognizers [lex_real, lex_integer, lex_identifier, lex_string, lex_operator_or_separator] L = fn L"
    then obtain fn where "fst (fn L) \<noteq> None"
      and "try_recognizers [lex_real, lex_integer, lex_identifier, lex_string, lex_operator_or_separator] L = fn L"
      by (elim bexE conjE)
    with assms show ?thesis by simp
  qed
qed

lemma dispatch_Some:
  assumes "try_recognizers [lex_real, lex_integer, lex_identifier, lex_string, lex_operator_or_separator] L = (Some (k, lx), L')"
  shows "k \<noteq> EOF \<and> i L < i L' \<and> text L' = text L \<and> n L' = n L \<and>
         (n L = length (text L) \<longrightarrow> lx = slice (text L) (i L) (i L'))"
proof -
  from dispatch_result [of L] show ?thesis
  proof
    assume "try_recognizers [lex_real, lex_integer, lex_identifier, lex_string, lex_operator_or_separator] L = (None, L)"
    with assms show ?thesis by simp
  next
    assume "\<exists>fn \<in> {lex_real, lex_integer, lex_identifier, lex_string, lex_operator_or_separator}.
         fst (fn L) \<noteq> None \<and>
         try_recognizers [lex_real, lex_integer, lex_identifier, lex_string, lex_operator_or_separator] L = fn L"
    then obtain fn where "fn \<in> {lex_real, lex_integer, lex_identifier, lex_string, lex_operator_or_separator}"
      and "try_recognizers [lex_real, lex_integer, lex_identifier, lex_string, lex_operator_or_separator] L = fn L"
      by (elim bexE conjE)
    with assms have "fn L = (Some (k, lx), L')" by simp
    with \<open>fn \<in> _\<close> show ?thesis by (rule recognizer_good)
  qed
qed

lemma skip_comments_None': "skip_comments L = (None, L') \<Longrightarrow> L' = L"
  using skip_comments_None [of L] by simp

lemma skip_comments_Some':
  "skip_comments L = (Some (k, lx), L') \<Longrightarrow>
     k \<noteq> EOF \<and> i L < i L' \<and> text L' = text L \<and> n L' = n L \<and>
     (n L = length (text L) \<longrightarrow> lx = slice (text L) (i L) (i L'))"
  using skip_comments_Some [of L k lx] skip_comments_frame [of L] by simp

lemma skip_whitespace_fields [simp]:
  "text (skip_whitespace L) = text L" "n (skip_whitespace L) = n L"
  by (simp_all add: skip_whitespace_def)

lemma skip_whitespace_mono: "i L \<le> i (skip_whitespace L)"
  by (simp add: skip_whitespace_def advance_while_mono)

lemma skip_whitespace_eof: "eof L \<Longrightarrow> skip_whitespace L = L"
  by (simp add: skip_whitespace_def advance_while.simps)

lemma next_token_eof: "eof L \<Longrightarrow> next_token L = ((EOF, []), L)"
  by (simp add: next_token_def)

text \<open>
  A call of \<^verbatim>\<open>next_token\<close> either ends at the end of the input, after the whitespace, with
  \<^verbatim>\<open>EOF\<close>, or returns another kind of token whose lexeme is the text between the end of the
  whitespace and the new position.
\<close>

lemma next_token_cases:
  fixes L :: lexer
  defines "W \<equiv> skip_whitespace L"
  shows "(eof W \<and> next_token L = ((EOF, []), W))
       \<or> (\<not> eof L \<and> (\<exists>k lx L'. next_token L = ((k, lx), L') \<and> k \<noteq> EOF \<and> i W < i L' \<and>
              text L' = text L \<and> n L' = n L \<and>
              (n L = length (text L) \<longrightarrow> lx = slice (text L) (i W) (i L'))))"
proof (cases "eof L")
  case True
  then show ?thesis by (simp add: W_def next_token_eof skip_whitespace_eof)
next
  case ne: False
  obtain r L2 where sc: "skip_comments W = (r, L2)" by (cases "skip_comments W")
  show ?thesis
  proof (cases r)
    case (Some t)
    obtain k lx where t: "t = (k, lx)" by (cases t)
    from ne sc Some t have "next_token L = ((k, lx), L2)"
      by (simp add: next_token_def W_def)
    with skip_comments_Some' [of W k lx L2] sc Some t ne show ?thesis
      by (simp add: W_def)
  next
    case None
    with sc skip_comments_None' have L2: "L2 = W" by blast
    show ?thesis
    proof (cases "eof W")
      case True
      with ne sc None L2 show ?thesis by (simp add: next_token_def W_def)
    next
      case neW: False
      obtain r' L3 where d: "try_recognizers [lex_real, lex_integer, lex_identifier, lex_string,
          lex_operator_or_separator] W = (r', L3)"
        by (cases "try_recognizers [lex_real, lex_integer, lex_identifier, lex_string,
          lex_operator_or_separator] W")
      show ?thesis
      proof (cases r')
        case (Some t)
        obtain k lx where t: "t = (k, lx)" by (cases t)
        from ne sc None L2 neW d Some t have "next_token L = ((k, lx), L3)"
          by (simp add: next_token_def W_def)
        with dispatch_Some [of W k lx L3] d Some t ne show ?thesis
          by (simp add: W_def)
      next
        case N: None
        with d dispatch_None have L3: "L3 = W" by blast
        from ne sc None L2 neW d N L3 have "next_token L = ((UNKNOWN, peek W 0), advance W 1)"
          by (simp add: next_token_def W_def)
        with ne neW slice_peek0 [of W] show ?thesis by (simp add: eof_def W_def)
      qed
    qed
  qed
qed

lemma next_token_frame: "text (snd (next_token L)) = text L \<and> n (snd (next_token L)) = n L"
  using next_token_cases [of L] by auto

lemma next_token_EOF:
  "fst (fst (next_token L)) = EOF \<Longrightarrow>
     next_token L = ((EOF, []), skip_whitespace L) \<and> eof (skip_whitespace L)"
  using next_token_cases [of L] by auto

lemma next_token_nonEOF:
  "fst (fst (next_token L)) \<noteq> EOF \<Longrightarrow>
     \<not> eof L \<and> i (skip_whitespace L) < i (snd (next_token L)) \<and>
     (n L = length (text L) \<longrightarrow>
        snd (fst (next_token L)) = slice (text L) (i (skip_whitespace L)) (i (snd (next_token L))))"
  using next_token_cases [of L] by auto

lemma next_token_advances:
  "fst (fst (next_token L)) \<noteq> EOF \<Longrightarrow> i L < i (snd (next_token L))"
  using next_token_nonEOF [of L] skip_whitespace_mono [of L] by simp

lemma tokens_from_total:
  "\<exists>front. tokens_from L = Some (front @ [(EOF, [])]) \<and> length front \<le> n L - i L \<and>
      list_all (\<lambda>t. fst t \<noteq> EOF) front"
proof (induction "n L - i L" arbitrary: L rule: less_induct)
  case less
  from next_token_cases [of L] show ?case
  proof
    assume "eof (skip_whitespace L) \<and> next_token L = ((EOF, []), skip_whitespace L)"
    then have "tokens_from L = Some ([] @ [(EOF, [])])"
      by (subst tokens_from.simps) simp
    then show ?thesis by (intro exI [of _ "[]"]) simp
  next
    assume "\<not> eof L \<and> (\<exists>k lx L'. next_token L = ((k, lx), L') \<and> k \<noteq> EOF \<and>
        i (skip_whitespace L) < i L' \<and> text L' = text L \<and> n L' = n L \<and>
        (n L = length (text L) \<longrightarrow> lx = slice (text L) (i (skip_whitespace L)) (i L')))"
    then obtain k lx L' where ne: "\<not> eof L" and nt: "next_token L = ((k, lx), L')"
      and k: "k \<noteq> EOF" and adv: "i (skip_whitespace L) < i L'" and n': "n L' = n L"
      by blast
    from adv skip_whitespace_mono [of L] have lt: "i L < i L'" by simp
    with ne n' have "n L' - i L' < n L - i L" by (simp add: eof_def)
    from less [OF this] obtain front where f: "tokens_from L' = Some (front @ [(EOF, [])])"
      and len: "length front \<le> n L' - i L'" and all: "list_all (\<lambda>t. fst t \<noteq> EOF) front"
      by blast
    from nt k f have "tokens_from L = Some (((k, lx) # front) @ [(EOF, [])])"
      by (subst tokens_from.simps) simp
    moreover from len lt ne n' have "length ((k, lx) # front) \<le> n L - i L"
      by (simp add: eof_def)
    moreover from k all have "list_all (\<lambda>t. fst t \<noteq> EOF) ((k, lx) # front)" by simp
    ultimately show ?thesis by blast
  qed
qed

lemma Lexer_fields [simp]: "text (Lexer s) = s" "i (Lexer s) = 0" "n (Lexer s) = length s"
  by (simp_all add: Lexer_def)

lemma next_token_at_eof_iter:
  "eof W \<Longrightarrow> ((snd \<circ> next_token) ^^ k) W = W"
  by (induction k) (simp_all add: next_token_eof)

subsection \<open>Scanning a buffer of known shape\<close>

lemma peek_at:
  "peek ((Lexer s)\<lparr>i := j\<rparr>) k = (if j + k < length s then [s ! (j + k)] else [])"
  by (simp add: peek_def)

lemma advance_at: "advance ((Lexer s)\<lparr>i := j\<rparr>) k = (Lexer s)\<lparr>i := j + k\<rparr>"
  by (simp add: advance_def)

lemma eof_at: "eof ((Lexer s)\<lparr>i := j\<rparr>) = (length s \<le> j)"
  by (simp add: eof_def)

lemma advance_while_to:
  assumes "j \<le> e" and "e \<le> length s"
    and "\<And>m. j \<le> m \<Longrightarrow> m < e \<Longrightarrow> c ((Lexer s)\<lparr>i := m\<rparr>)"
    and "e = length s \<or> \<not> c ((Lexer s)\<lparr>i := e\<rparr>)"
  shows "advance_while c ((Lexer s)\<lparr>i := j\<rparr>) = (Lexer s)\<lparr>i := e\<rparr>"
  using assms
proof (induction "e - j" arbitrary: j)
  case 0
  then have "j = e" by simp
  with 0 show ?case by (subst advance_while.simps) (auto simp: eof_at)
next
  case (Suc d)
  then have lt: "j < e" by simp
  with Suc.prems have "\<not> eof ((Lexer s)\<lparr>i := j\<rparr>)" and "c ((Lexer s)\<lparr>i := j\<rparr>)"
    by (simp_all add: eof_at)
  then have "advance_while c ((Lexer s)\<lparr>i := j\<rparr>) = advance_while c ((Lexer s)\<lparr>i := Suc j\<rparr>)"
    by (subst advance_while.simps) (simp add: advance_at)
  also have "\<dots> = (Lexer s)\<lparr>i := e\<rparr>"
  proof (rule Suc.hyps(1))
    show "d = e - Suc j" using Suc.hyps(2) by simp
    show "Suc j \<le> e" using lt by simp
    show "e \<le> length s" by (rule Suc.prems(2))
    show "\<And>m. Suc j \<le> m \<Longrightarrow> m < e \<Longrightarrow> c ((Lexer s)\<lparr>i := m\<rparr>)"
      using Suc.prems(3) by simp
    show "e = length s \<or> \<not> c ((Lexer s)\<lparr>i := e\<rparr>)" by (rule Suc.prems(4))
  qed
  finally show ?case .
qed

text \<open>A loop whose condition looks at the current character only runs over a run of characters.\<close>

lemma advance_while_run:
  assumes Q: "\<And>x. Q [x] = P x"
    and run: "list_all P run"
    and stop: "rest = [] \<or> \<not> P (hd rest)"
  shows "advance_while (\<lambda>L. Q (peek L 0)) ((Lexer (pre @ run @ rest))\<lparr>i := length pre\<rparr>)
         = (Lexer (pre @ run @ rest))\<lparr>i := length pre + length run\<rparr>"
proof (rule advance_while_to)
  show "length pre \<le> length pre + length run" by simp
  show "length pre + length run \<le> length (pre @ run @ rest)" by simp
  show "Q (peek ((Lexer (pre @ run @ rest))\<lparr>i := m\<rparr>) 0)"
    if "length pre \<le> m" "m < length pre + length run" for m
  proof -
    from that have lt: "m - length pre < length run" by arith
    with that have "(pre @ run @ rest) ! m = run ! (m - length pre)"
      by (simp add: nth_append)
    moreover from lt run have "P (run ! (m - length pre))"
      by (simp add: list_all_length)
    ultimately show ?thesis using that by (simp add: peek_at Q)
  qed
  show "length pre + length run = length (pre @ run @ rest)
      \<or> \<not> Q (peek ((Lexer (pre @ run @ rest))\<lparr>i := length pre + length run\<rparr>) 0)"
  proof (cases rest)
    case Nil
    then show ?thesis by simp
  next
    case (Cons x xs)
    with stop have "\<not> P x" by simp
    with Cons show ?thesis by (simp add: peek_at Q nth_append)
  qed
qed

lemma slice_mid: "slice (pre @ xs @ rest) (length pre) (length pre + length xs) = xs"
  by (simp add: slice_def)

lemma slice_at [simp]: "slice (text ((Lexer s)\<lparr>i := j\<rparr>)) a b = slice s a b"
  by simp

lemma lex_string_run:
  assumes body: "list_all (\<lambda>c. c \<noteq> CHR 0x22 \<and> c \<noteq> CHR 0x0A) body"
    and rest: "rest = [] \<or> hd rest = CHR 0x22 \<or> hd rest = CHR 0x0A"
  shows "lex_string ((Lexer (pre @ CHR 0x22 # body @ rest))\<lparr>i := length pre\<rparr>) =
     (if rest \<noteq> [] \<and> hd rest = CHR 0x22
      then (Some (STRING, CHR 0x22 # body @ [CHR 0x22]),
            (Lexer (pre @ CHR 0x22 # body @ rest))\<lparr>i := length pre + length body + 2\<rparr>)
      else (Some (STRING, CHR 0x22 # body),
            (Lexer (pre @ CHR 0x22 # body @ rest))\<lparr>i := length pre + length body + 1\<rparr>))"
proof -
  let ?s = "pre @ CHR 0x22 # body @ rest"
  let ?c = "\<lambda>L. peek L 0 \<noteq> [CHR 0x22] \<and> peek L 0 \<noteq> [CHR 0x0A]"
  have s: "?s = (pre @ [CHR 0x22]) @ body @ rest" by simp
  have first: "peek ((Lexer ?s)\<lparr>i := length pre\<rparr>) 0 = [CHR 0x22]"
    by (simp add: peek_at)
  have "advance_while (\<lambda>L. (\<lambda>x. x \<noteq> [CHR 0x22] \<and> x \<noteq> [CHR 0x0A]) (peek L 0))
          ((Lexer ((pre @ [CHR 0x22]) @ body @ rest))\<lparr>i := length (pre @ [CHR 0x22])\<rparr>)
        = (Lexer ((pre @ [CHR 0x22]) @ body @ rest))\<lparr>i := length (pre @ [CHR 0x22]) + length body\<rparr>"
    using body rest
    by (intro advance_while_run [where P = "\<lambda>c. c \<noteq> CHR 0x22 \<and> c \<noteq> CHR 0x0A"]) auto
  then have loop: "advance_while ?c ((Lexer ?s)\<lparr>i := Suc (length pre)\<rparr>)
        = (Lexer ?s)\<lparr>i := Suc (length pre + length body)\<rparr>"
    by simp
  have after: "peek ((Lexer ?s)\<lparr>i := Suc (length pre + length body)\<rparr>) 0
        = (if rest = [] then [] else [hd rest])"
    by (cases rest) (simp_all add: peek_at nth_append nth_Cons')
  have sl1: "slice ?s (length pre) (Suc (length pre + length body)) = CHR 0x22 # body"
    using slice_mid [of pre "CHR 0x22 # body" rest] by simp
  have sl2: "rest \<noteq> [] \<Longrightarrow> hd rest = CHR 0x22 \<Longrightarrow>
      slice ?s (length pre) (Suc (Suc (length pre + length body))) = CHR 0x22 # body @ [CHR 0x22]"
    using slice_mid [of pre "CHR 0x22 # body @ [CHR 0x22]" "tl rest"]
    by (cases rest) simp_all
  show ?thesis
  proof (cases "rest \<noteq> [] \<and> hd rest = CHR 0x22")
    case True
    with loop after sl2 show ?thesis
      by (simp add: lex_string_def first advance_at Let_def)
  next
    case False
    with after have "peek ((Lexer ?s)\<lparr>i := Suc (length pre + length body)\<rparr>) 0 \<noteq> [CHR 0x22]"
      by auto
    with False loop sl1 show ?thesis
      by (simp add: lex_string_def first advance_at Let_def)
  qed
qed

lemma not_str_in_nth:
  "\<not> str_in ''*/'' xs \<Longrightarrow> Suc m < length xs \<Longrightarrow> \<not> (xs ! m = CHR ''*'' \<and> xs ! Suc m = CHR ''/'')"
proof (induction xs arbitrary: m)
  case Nil
  then show ?case by simp
next
  case (Cons x xs)
  show ?case
  proof (cases m)
    case 0
    with Cons.prems show ?thesis by (cases xs) auto
  next
    case (Suc m')
    with Cons.prems Cons.IH [of m'] show ?thesis by simp
  qed
qed

lemma block_comment_loop:
  assumes body: "\<not> str_in ''*/'' body"
    and rest: "rest = [] \<or> take 2 rest = ''*/''"
  shows "advance_while (\<lambda>L. \<not> (peek L 0 = ''*'' \<and> peek L 1 = ''/''))
           ((Lexer (pre @ ''/*'' @ body @ rest))\<lparr>i := length pre + 2\<rparr>)
         = (Lexer (pre @ ''/*'' @ body @ rest))\<lparr>i := length pre + 2 + length body\<rparr>"
proof (rule advance_while_to)
  let ?s = "pre @ ''/*'' @ body @ rest"
  show "length pre + 2 \<le> length pre + 2 + length body" by simp
  show "length pre + 2 + length body \<le> length ?s" by simp
  show "\<not> (peek ((Lexer ?s)\<lparr>i := m\<rparr>) 0 = ''*'' \<and> peek ((Lexer ?s)\<lparr>i := m\<rparr>) 1 = ''/'')"
    if m: "length pre + 2 \<le> m" "m < length pre + 2 + length body" for m
  proof -
    define m' where "m' = m - (length pre + 2)"
    from m have m': "m' < length body" and mm: "m = length pre + 2 + m'" by (simp_all add: m'_def)
    have 0: "?s ! m = body ! m'" using m' by (simp add: mm nth_append)
    show ?thesis
    proof (cases "Suc m' < length body")
      case True
      then have "?s ! Suc m = body ! Suc m'" by (simp add: mm nth_append)
      with 0 not_str_in_nth [OF body True] show ?thesis by (auto simp: peek_at split: if_splits)
    next
      case False
      with m' have last: "Suc m' = length body" by simp
      show ?thesis
      proof (cases rest)
        case Nil
        with last have "Suc m = length ?s" by (simp add: mm)
        then show ?thesis by (simp add: peek_at)
      next
        case (Cons x xs)
        with rest have "x = CHR ''*''" by simp
        with Cons last have "?s ! Suc m = CHR ''*''" by (simp add: mm nth_append)
        then show ?thesis by (auto simp: peek_at split: if_splits)
      qed
    qed
  qed
  show "length pre + 2 + length body = length ?s \<or>
      \<not> \<not> (peek ((Lexer ?s)\<lparr>i := length pre + 2 + length body\<rparr>) 0 = ''*'' \<and>
           peek ((Lexer ?s)\<lparr>i := length pre + 2 + length body\<rparr>) 1 = ''/'')"
  proof (cases rest)
    case Nil
    then show ?thesis by simp
  next
    case (Cons x xs)
    with rest obtain ys where "rest = CHR ''*'' # CHR ''/'' # ys" by (cases xs) auto
    then show ?thesis by (simp add: peek_at nth_append)
  qed
qed

lemma skip_comments_block:
  assumes body: "\<not> str_in ''*/'' body"
  shows "skip_comments ((Lexer (pre @ ''/*'' @ body))\<lparr>i := length pre\<rparr>) =
           (Some (COMMENT, ''/*'' @ body),
            (Lexer (pre @ ''/*'' @ body))\<lparr>i := length (pre @ ''/*'' @ body)\<rparr>)"
    and "skip_comments ((Lexer (pre @ ''/*'' @ body @ ''*/'' @ rest))\<lparr>i := length pre\<rparr>) =
           (Some (COMMENT, ''/*'' @ body @ ''*/''),
            (Lexer (pre @ ''/*'' @ body @ ''*/'' @ rest))\<lparr>i := length pre + length body + 4\<rparr>)"
proof -
  let ?c = "\<lambda>L. \<not> (peek L 0 = ''*'' \<and> peek L 1 = ''/'')"
  let ?s = "pre @ ''/*'' @ body"
  have p0: "peek ((Lexer ?s)\<lparr>i := length pre\<rparr>) 0 = ''/''"
    and p1: "peek ((Lexer ?s)\<lparr>i := length pre\<rparr>) 1 = ''*''"
    by (simp_all add: peek_at nth_append)
  have loop: "advance_while ?c ((Lexer ?s)\<lparr>i := length pre + 2\<rparr>)
      = (Lexer ?s)\<lparr>i := length pre + 2 + length body\<rparr>"
    using block_comment_loop [OF body, of "[]" pre] by simp
  have sl: "slice ?s (length pre) (length pre + 2 + length body) = ''/*'' @ body"
    using slice_mid [of pre "''/*'' @ body" "[]"] by (simp add: add.assoc)
  show "skip_comments ((Lexer ?s)\<lparr>i := length pre\<rparr>) =
           (Some (COMMENT, ''/*'' @ body), (Lexer ?s)\<lparr>i := length ?s\<rparr>)"
    using loop sl p0 p1
    by (simp add: skip_comments_def advance_at eof_at Let_def)
next
  let ?c = "\<lambda>L. \<not> (peek L 0 = ''*'' \<and> peek L 1 = ''/'')"
  let ?s = "pre @ ''/*'' @ body @ ''*/'' @ rest"
  have p0: "peek ((Lexer ?s)\<lparr>i := length pre\<rparr>) 0 = ''/''"
    and p1: "peek ((Lexer ?s)\<lparr>i := length pre\<rparr>) 1 = ''*''"
    by (simp_all add: peek_at nth_append)
  have loop: "advance_while ?c ((Lexer ?s)\<lparr>i := length pre + 2\<rparr>)
      = (Lexer ?s)\<lparr>i := length pre + 2 + length body\<rparr>"
    using block_comment_loop [OF body, of "''*/'' @ rest" pre] by simp
  have sl: "slice ?s (length pre) (length pre + 2 + length body + 2) = ''/*'' @ body @ ''*/''"
    using slice_mid [of pre "''/*'' @ body @ ''*/''" rest] by (simp add: add.assoc)
  have e: "\<not> eof ((Lexer ?s)\<lparr>i := length pre + 2 + length body\<rparr>)"
    by (simp add: eof_at)
  have pos: "length pre + 2 + length body + 2 = length pre + length body + 4" by simp
  show "skip_comments ((Lexer ?s)\<lparr>i := length pre\<rparr>) =
           (Some (COMMENT, ''/*'' @ body @ ''*/''), (Lexer ?s)\<lparr>i := length pre + length body + 4\<rparr>)"
    using loop sl p0 p1 e
    by (simp add: skip_comments_def advance_at Let_def)
qed

subsection \<open>The skipped whitespace and the lexemes\<close>

lemma advance_while_between:
  "i L \<le> m \<Longrightarrow> m < i (advance_while c L) \<Longrightarrow> c (L\<lparr>i := m\<rparr>) \<and> m < n L"
proof (induction c L rule: advance_while.induct)
  case (1 c L)
  show ?case
  proof (cases "\<not> eof L \<and> c L")
    case False
    with "1.prems" show ?thesis by (subst (asm) advance_while.simps) simp
  next
    case True
    show ?thesis
    proof (cases "m = i L")
      case True
      with \<open>\<not> eof L \<and> c L\<close> show ?thesis by (simp add: eof_def)
    next
      case False
      with "1.prems"(1) have "i (advance L 1) \<le> m" by simp
      moreover from "1.prems"(2) True have "m < i (advance_while c (advance L 1))"
        by (subst (asm) advance_while.simps) simp
      ultimately have "c ((advance L 1)\<lparr>i := m\<rparr>) \<and> m < n (advance L 1)"
        using True by (intro "1.IH") simp_all
      then show ?thesis by (simp add: advance_def)
    qed
  qed
qed

lemma skipped_is_whitespace:
  assumes "n L = length (text L)"
  shows "list_all isspace_char (slice (text L) (i L) (i (skip_whitespace L)))"
proof -
  let ?W = "skip_whitespace L"
  have "isspace_char (slice (text L) (i L) (i ?W) ! k)" if "k < length (slice (text L) (i L) (i ?W))" for k
  proof -
    from that have k: "i L + k < i ?W" and len: "i L + k < length (text L)"
      by (auto simp: slice_def)
    from k have "str_isspace (peek (L\<lparr>i := i L + k\<rparr>) 0)"
      using advance_while_between [of L "i L + k" "\<lambda>L. str_isspace (peek L 0)"]
      by (simp add: skip_whitespace_def)
    with len assms have "isspace_char (text L ! (i L + k))"
      by (simp add: peek_def str_isspace_def)
    moreover from len have "drop (i L) (text L) ! k = text L ! (i L + k)" by simp
    ultimately show ?thesis using that by (simp add: slice_def)
  qed
  then show ?thesis by (simp add: list_all_length)
qed

lemma slice_then_drop: "a \<le> b \<Longrightarrow> slice s a b @ drop b s = drop a s"
proof -
  assume "a \<le> b"
  then have "drop b s = drop (b - a) (drop a s)" by simp
  then have "slice s a b @ drop b s = take (b - a) (drop a s) @ drop (b - a) (drop a s)"
    by (simp only: slice_def)
  then show ?thesis by (simp only: append_take_drop_id)
qed

lemma slice_to_end: "length s \<le> b \<Longrightarrow> slice s a b = drop a s"
  by (simp add: slice_def)

lemma tokens_from_partition:
  assumes "n L = length (text L)"
  shows "\<exists>ts wss. tokens_from L = Some ts \<and> length wss = length ts \<and>
      list_all (list_all isspace_char) wss \<and>
      concat (map2 (\<lambda>ws t. ws @ snd t) wss ts) = drop (i L) (text L)"
  using assms
proof (induction "n L - i L" arbitrary: L rule: less_induct)
  case less
  let ?W = "skip_whitespace L"
  let ?ws = "slice (text L) (i L) (i ?W)"
  have ws: "list_all isspace_char ?ws" using less.prems by (rule skipped_is_whitespace)
  from next_token_cases [of L] show ?case
  proof
    assume a: "eof ?W \<and> next_token L = ((EOF, []), ?W)"
    then have "tokens_from L = Some [(EOF, [])]"
      by (subst tokens_from.simps) simp
    moreover from a less.prems have "?ws = drop (i L) (text L)"
      by (intro slice_to_end) (simp add: eof_def)
    ultimately show ?thesis using ws
      by (intro exI [of _ "[(EOF, [])]"] exI [of _ "[?ws]"]) simp
  next
    assume "\<not> eof L \<and> (\<exists>k lx L'. next_token L = ((k, lx), L') \<and> k \<noteq> EOF \<and>
        i ?W < i L' \<and> text L' = text L \<and> n L' = n L \<and>
        (n L = length (text L) \<longrightarrow> lx = slice (text L) (i ?W) (i L')))"
    with less.prems obtain k lx L' where ne: "\<not> eof L" and nt: "next_token L = ((k, lx), L')"
      and k: "k \<noteq> EOF" and adv: "i ?W < i L'" and t': "text L' = text L" and n': "n L' = n L"
      and lx: "lx = slice (text L) (i ?W) (i L')"
      by blast
    have mono: "i L \<le> i ?W" by (rule skip_whitespace_mono)
    with adv ne n' have "n L' - i L' < n L - i L" by (simp add: eof_def)
    moreover from less.prems t' n' have "n L' = length (text L')" by simp
    ultimately obtain ts wss where ts: "tokens_from L' = Some ts" and len: "length wss = length ts"
      and all: "list_all (list_all isspace_char) wss"
      and cat: "concat (map2 (\<lambda>ws t. ws @ snd t) wss ts) = drop (i L') (text L')"
      using less.hyps [of L'] by blast
    from nt k ts have "tokens_from L = Some ((k, lx) # ts)"
      by (subst tokens_from.simps) simp
    moreover have "concat (map2 (\<lambda>ws t. ws @ snd t) (?ws # wss) ((k, lx) # ts)) = drop (i L) (text L)"
    proof -
      have "concat (map2 (\<lambda>ws t. ws @ snd t) (?ws # wss) ((k, lx) # ts))
          = ?ws @ (lx @ drop (i L') (text L))"
        using cat t' by simp
      also have "lx @ drop (i L') (text L) = drop (i ?W) (text L)"
        unfolding lx using adv by (intro slice_then_drop) simp
      also have "?ws @ drop (i ?W) (text L) = drop (i L) (text L)"
        using mono by (rule slice_then_drop)
      finally show ?thesis .
    qed
    ultimately show ?thesis using ws len all
      by (intro exI [of _ "(k, lx) # ts"] exI [of _ "?ws # wss"]) simp
  qed
qed

lemma next_token_lexeme:
  assumes "n L = length (text L)"
  shows "i L \<le> i (skip_whitespace L) \<and> i (skip_whitespace L) \<le> i (snd (next_token L)) \<and>
     snd (fst (next_token L)) = slice (text L) (i (skip_whitespace L)) (i (snd (next_token L)))"
  using next_token_cases [of L] assms skip_whitespace_mono [of L]
  by (auto simp: slice_def)

subsection \<open>Digits, letters and the tokens they start\<close>

lemma digit_not_space: "isdigit_char c \<Longrightarrow> \<not> isspace_char c"
  by (auto simp: isdigit_char_def isspace_char_def Let_def)

lemma alpha_not_space: "isalpha_char c \<Longrightarrow> \<not> isspace_char c"
  by (auto simp: isalpha_char_def isspace_char_def Let_def)

lemma alpha_not_digit: "isalpha_char c \<Longrightarrow> \<not> isdigit_char c"
  by (auto simp: isalpha_char_def isdigit_char_def Let_def)

lemma digit_not_punct: "isdigit_char c \<Longrightarrow> c \<noteq> CHR ''.'' \<and> c \<noteq> CHR ''/'' \<and> c \<noteq> CHR 0x22"
  by (auto simp: isdigit_char_def Let_def)

lemma alpha_not_punct: "isalpha_char c \<Longrightarrow> c \<noteq> CHR ''.'' \<and> c \<noteq> CHR ''/'' \<and> c \<noteq> CHR 0x22"
  by (auto simp: isalpha_char_def Let_def)

lemma nonzero_digit: "c \<in> set ''123456789'' \<Longrightarrow> isdigit_char c \<and> c \<noteq> CHR ''0''"
  by (auto simp: isdigit_char_def Let_def)

lemma str_in_single: "str_in [c] xs = (c \<in> set xs)"
  by (induction xs) auto

lemma is_digit_single [simp]: "is_digit [c] = isdigit_char c" "is_digit [] = False"
  by (simp_all add: is_digit_def str_isdigit_def)

lemma is_letter_single [simp]: "is_letter [c] = isalpha_char c" "is_letter [] = False"
  by (simp_all add: is_letter_def str_isalpha_def)

lemma is_alnum_single [simp]: "is_alnum [c] = isalnum_char c" "is_alnum [] = False"
  by (simp_all add: is_alnum_def str_isalnum_def)

lemma str_isspace_single [simp]: "str_isspace [c] = isspace_char c" "str_isspace [] = False"
  by (simp_all add: str_isspace_def)

lemma skip_whitespace_id: "\<not> str_isspace (peek L 0) \<Longrightarrow> skip_whitespace L = L"
  by (simp add: skip_whitespace_def advance_while.simps)

lemma skip_comments_none: "peek L 0 \<noteq> ''/'' \<Longrightarrow> skip_comments L = (None, L)"
  by (simp add: skip_comments_def)

lemma lex_real_none: "\<not> is_digit (peek L 0) \<Longrightarrow> lex_real L = (None, L)"
  by (simp add: lex_real_def)

lemma lex_integer_none: "\<not> is_digit (peek L 0) \<Longrightarrow> lex_integer L = (None, L)"
  by (simp add: lex_integer_def)

text \<open>
  What \<^verbatim>\<open>next_token\<close> returns when the character at the cursor is neither blank nor a
  slash.
\<close>

lemma next_token_dispatch:
  assumes "\<not> eof L" and "\<not> str_isspace (peek L 0)" and "peek L 0 \<noteq> ''/''"
    and "try_recognizers [lex_real, lex_integer, lex_identifier, lex_string,
           lex_operator_or_separator] L = (Some tok, L')"
  shows "next_token L = (tok, L')"
  using assms by (simp add: next_token_def skip_whitespace_id skip_comments_none)

text \<open>The digits of a real or an integer, scanned from the first one.\<close>

lemma digit_loop:
  assumes "list_all isdigit_char ds" and "rest = [] \<or> \<not> isdigit_char (hd rest)"
  shows "advance_while (\<lambda>L. is_digit (peek L 0)) ((Lexer (pre @ ds @ rest))\<lparr>i := length pre\<rparr>)
         = (Lexer (pre @ ds @ rest))\<lparr>i := length pre + length ds\<rparr>"
  using assms by (intro advance_while_run [where P = isdigit_char]) simp_all

lemma peek_after:
  "peek ((Lexer (pre @ rest))\<lparr>i := length pre\<rparr>) 0 = (if rest = [] then [] else [hd rest])"
  by (cases rest) (simp_all add: peek_at nth_append)

lemma lex_real_no_dot:
  assumes ds: "list_all isdigit_char ds" and ne: "ds \<noteq> []"
    and rest: "rest = [] \<or> (\<not> isdigit_char (hd rest) \<and> hd rest \<noteq> CHR ''.'')"
  shows "lex_real ((Lexer (pre @ ds @ rest))\<lparr>i := length pre\<rparr>)
         = (None, (Lexer (pre @ ds @ rest))\<lparr>i := length pre\<rparr>)"
proof -
  let ?s = "pre @ ds @ rest"
  let ?L = "(Lexer ?s)\<lparr>i := length pre\<rparr>"
  from ds ne have first: "is_digit (peek ?L 0)"
    by (cases ds) (simp_all add: peek_at nth_append)
  from ds rest have loop: "advance_while (\<lambda>L. is_digit (peek L 0)) ?L
      = (Lexer ?s)\<lparr>i := length pre + length ds\<rparr>"
    by (intro digit_loop) auto
  have "peek ((Lexer ((pre @ ds) @ rest))\<lparr>i := length (pre @ ds)\<rparr>) 0
      = (if rest = [] then [] else [hd rest])"
    by (rule peek_after)
  with rest have after: "peek ((Lexer ?s)\<lparr>i := length pre + length ds\<rparr>) 0 \<noteq> ''.''"
    by auto
  from first loop after show ?thesis
    by (simp add: lex_real_def Let_def)
qed

lemma lex_integer_nonzero:
  assumes ds: "list_all isdigit_char ds" and ne: "ds \<noteq> []" and hd: "hd ds \<in> set ''123456789''"
    and rest: "rest = [] \<or> (\<not> isdigit_char (hd rest) \<and> hd rest \<noteq> CHR ''.'')"
  shows "lex_integer ((Lexer (pre @ ds @ rest))\<lparr>i := length pre\<rparr>)
         = (Some (INTEGER, ds), (Lexer (pre @ ds @ rest))\<lparr>i := length pre + length ds\<rparr>)"
proof -
  let ?s = "pre @ ds @ rest"
  let ?L = "(Lexer ?s)\<lparr>i := length pre\<rparr>"
  from ne obtain d ds' where dd: "ds = d # ds'" by (cases ds) auto
  with hd have d: "d \<in> set ''123456789''" by simp
  from dd have first: "peek ?L 0 = [d]" by (simp add: peek_at nth_append)
  from d have nz: "isdigit_char d" "d \<noteq> CHR ''0''" using nonzero_digit by blast+
  from d have sin: "str_in [d] ''123456789''" by (simp only: str_in_single)
  have "advance_while (\<lambda>L. is_digit (peek L 0))
          ((Lexer ((pre @ [d]) @ ds' @ rest))\<lparr>i := length (pre @ [d])\<rparr>)
        = (Lexer ((pre @ [d]) @ ds' @ rest))\<lparr>i := length (pre @ [d]) + length ds'\<rparr>"
    using ds rest dd by (intro digit_loop) auto
  then have loop: "advance_while (\<lambda>L. is_digit (peek L 0)) ((Lexer ?s)\<lparr>i := Suc (length pre)\<rparr>)
        = (Lexer ?s)\<lparr>i := length pre + length ds\<rparr>"
    by (simp add: dd)
  have "peek ((Lexer ((pre @ ds) @ rest))\<lparr>i := length (pre @ ds)\<rparr>) 0
      = (if rest = [] then [] else [hd rest])"
    by (rule peek_after)
  with rest have after: "peek ((Lexer ?s)\<lparr>i := length pre + length ds\<rparr>) 0 \<noteq> ''.''"
    by auto
  have sl: "slice ?s (length pre) (length pre + length ds) = ds" by (rule slice_mid)
  from first nz sin loop after sl show ?thesis
    by (simp add: lex_integer_def Let_def advance_at)
qed

lemma lex_integer_dot:
  assumes ds: "list_all isdigit_char ds" and ne: "ds \<noteq> []" and hd: "hd ds \<in> set ''123456789''"
  shows "lex_integer ((Lexer (pre @ ds @ CHR ''.'' # rest))\<lparr>i := length pre\<rparr>)
         = (None, (Lexer (pre @ ds @ CHR ''.'' # rest))\<lparr>i := length pre\<rparr>)"
proof -
  let ?s = "pre @ ds @ CHR ''.'' # rest"
  let ?L = "(Lexer ?s)\<lparr>i := length pre\<rparr>"
  from ne obtain d ds' where dd: "ds = d # ds'" by (cases ds) auto
  with hd have d: "d \<in> set ''123456789''" by simp
  from dd have first: "peek ?L 0 = [d]" by (simp add: peek_at nth_append)
  from d have nz: "isdigit_char d" "d \<noteq> CHR ''0''" using nonzero_digit by blast+
  from d have sin: "str_in [d] ''123456789''" by (simp only: str_in_single)
  have "advance_while (\<lambda>L. is_digit (peek L 0))
          ((Lexer ((pre @ [d]) @ ds' @ CHR ''.'' # rest))\<lparr>i := length (pre @ [d])\<rparr>)
        = (Lexer ((pre @ [d]) @ ds' @ CHR ''.'' # rest))\<lparr>i := length (pre @ [d]) + length ds'\<rparr>"
    using ds dd by (intro digit_loop) (auto simp: isdigit_char_def)
  then have loop: "advance_while (\<lambda>L. is_digit (peek L 0)) ((Lexer ?s)\<lparr>i := Suc (length pre)\<rparr>)
        = (Lexer ?s)\<lparr>i := length pre + length ds\<rparr>"
    by (simp add: dd)
  have "peek ((Lexer ((pre @ ds) @ CHR ''.'' # rest))\<lparr>i := length (pre @ ds)\<rparr>) 0 = ''.''"
    by (simp only: peek_after) simp
  then have after: "peek ((Lexer ?s)\<lparr>i := length pre + length ds\<rparr>) 0 = ''.''"
    by simp
  from first nz sin loop after show ?thesis
    by (simp add: lex_integer_def Let_def advance_at)
qed

lemma list_all_takeWhile: "list_all P (takeWhile P xs)"
  by (induction xs) simp_all

lemma lex_identifier_run:
  assumes c: "isalpha_char c"
  shows "lex_identifier ((Lexer (pre @ c # rest))\<lparr>i := length pre\<rparr>) =
     (Some (if c # takeWhile (\<lambda>x. isalnum_char x \<or> x = CHR ''_'') rest \<in> KEYWORDS
            then KEYWORD else IDENTIFIER,
            c # takeWhile (\<lambda>x. isalnum_char x \<or> x = CHR ''_'') rest),
      (Lexer (pre @ c # rest))
        \<lparr>i := length pre + 1 + length (takeWhile (\<lambda>x. isalnum_char x \<or> x = CHR ''_'') rest)\<rparr>)"
proof -
  let ?P = "\<lambda>x. isalnum_char x \<or> x = CHR ''_''"
  let ?w = "takeWhile ?P rest"
  let ?r = "dropWhile ?P rest"
  let ?s = "pre @ c # rest"
  let ?L = "(Lexer ?s)\<lparr>i := length pre\<rparr>"
  have s: "?s = (pre @ [c]) @ ?w @ ?r" by simp
  from c have first: "is_letter (peek ?L 0)" by (simp add: peek_at nth_append)
  have stop: "?r = [] \<or> \<not> ?P (hd ?r)"
  proof (cases "?r = []")
    case True
    then show ?thesis by (rule disjI1)
  next
    case False
    from hd_dropWhile [OF False] show ?thesis by (rule disjI2)
  qed
  have "advance_while (\<lambda>L. (\<lambda>x. is_alnum x \<or> x = ''_'') (peek L 0))
          ((Lexer ((pre @ [c]) @ ?w @ ?r))\<lparr>i := length (pre @ [c])\<rparr>)
        = (Lexer ((pre @ [c]) @ ?w @ ?r))\<lparr>i := length (pre @ [c]) + length ?w\<rparr>"
    using stop list_all_takeWhile [of ?P rest]
    by (intro advance_while_run [where P = ?P]) simp_all
  then have loop: "advance_while (\<lambda>L. is_alnum (peek L 0) \<or> peek L 0 = ''_'')
          ((Lexer ?s)\<lparr>i := Suc (length pre)\<rparr>)
        = (Lexer ?s)\<lparr>i := Suc (length pre + length ?w)\<rparr>"
    by simp
  have "slice ((pre @ (c # ?w) @ ?r)) (length pre) (length pre + length (c # ?w)) = c # ?w"
    by (rule slice_mid)
  then have sl: "slice ?s (length pre) (Suc (length pre + length ?w)) = c # ?w" by simp
  from first loop sl show ?thesis
    by (simp add: lex_identifier_def Let_def advance_at)
qed

lemma dispatch_second:
  assumes "lex_real L = (None, L)" and "lex_integer L = (Some tok, L')"
  shows "try_recognizers [lex_real, lex_integer, lex_identifier, lex_string,
           lex_operator_or_separator] L = (Some tok, L')"
  using assms by (simp add: dispatch_unfold)

lemma dispatch_third:
  assumes "lex_real L = (None, L)" and "lex_integer L = (None, L)"
    and "lex_identifier L = (Some tok, L')"
  shows "try_recognizers [lex_real, lex_integer, lex_identifier, lex_string,
           lex_operator_or_separator] L = (Some tok, L')"
  using assms by (simp add: dispatch_unfold)

lemma next_token_nonzero_integer:
  assumes ds: "list_all isdigit_char ds" and ne: "ds \<noteq> []" and hd: "hd ds \<in> set ''123456789''"
    and rest: "rest = [] \<or> (\<not> isdigit_char (hd rest) \<and> hd rest \<noteq> CHR ''.'')"
  shows "next_token ((Lexer (pre @ ds @ rest))\<lparr>i := length pre\<rparr>)
         = ((INTEGER, ds), (Lexer (pre @ ds @ rest))\<lparr>i := length pre + length ds\<rparr>)"
proof (rule next_token_dispatch)
  let ?L = "(Lexer (pre @ ds @ rest))\<lparr>i := length pre\<rparr>"
  from ne obtain d ds' where dd: "ds = d # ds'" by (cases ds) auto
  with hd nonzero_digit [of d] have d: "isdigit_char d" by simp
  from dd have first: "peek ?L 0 = [d]" by (simp add: peek_at nth_append)
  from ne show "\<not> eof ?L" by (simp add: eof_at)
  from first d show "\<not> str_isspace (peek ?L 0)" by (simp add: digit_not_space)
  from first d show "peek ?L 0 \<noteq> ''/''" using digit_not_punct [of d] by simp
  show "try_recognizers [lex_real, lex_integer, lex_identifier, lex_string,
           lex_operator_or_separator] ?L
        = (Some (INTEGER, ds), (Lexer (pre @ ds @ rest))\<lparr>i := length pre + length ds\<rparr>)"
    using lex_real_no_dot [OF ds ne rest] lex_integer_nonzero [OF ds ne hd rest]
    by (rule dispatch_second)
qed

lemma next_token_identifier:
  assumes c: "isalpha_char c"
  shows "next_token ((Lexer (pre @ c # rest))\<lparr>i := length pre\<rparr>) =
     ((if c # takeWhile (\<lambda>x. isalnum_char x \<or> x = CHR ''_'') rest \<in> KEYWORDS
       then KEYWORD else IDENTIFIER,
       c # takeWhile (\<lambda>x. isalnum_char x \<or> x = CHR ''_'') rest),
      (Lexer (pre @ c # rest))
        \<lparr>i := length pre + 1 + length (takeWhile (\<lambda>x. isalnum_char x \<or> x = CHR ''_'') rest)\<rparr>)"
proof (rule next_token_dispatch)
  let ?L = "(Lexer (pre @ c # rest))\<lparr>i := length pre\<rparr>"
  have first: "peek ?L 0 = [c]" by (simp add: peek_at nth_append)
  show "\<not> eof ?L" by (simp add: eof_at)
  from first c show "\<not> str_isspace (peek ?L 0)" by (simp add: alpha_not_space)
  from first c show "peek ?L 0 \<noteq> ''/''" using alpha_not_punct [of c] by simp
  from first c have nd: "\<not> is_digit (peek ?L 0)" by (simp add: alpha_not_digit)
  show "try_recognizers [lex_real, lex_integer, lex_identifier, lex_string,
           lex_operator_or_separator] ?L
        = (Some (if c # takeWhile (\<lambda>x. isalnum_char x \<or> x = CHR ''_'') rest \<in> KEYWORDS
             then KEYWORD else IDENTIFIER,
             c # takeWhile (\<lambda>x. isalnum_char x \<or> x = CHR ''_'') rest),
           (Lexer (pre @ c # rest))
             \<lparr>i := length pre + 1 + length (takeWhile (\<lambda>x. isalnum_char x \<or> x = CHR ''_'') rest)\<rparr>)"
    using lex_real_none [OF nd] lex_integer_none [OF nd] lex_identifier_run [OF c]
    by (rule dispatch_third)
qed

lemma tokens_from_step:
  "next_token L = (tok, L') \<Longrightarrow> fst tok \<noteq> EOF \<Longrightarrow> tokens_from L' = Some ts
     \<Longrightarrow> tokens_from L = Some (tok # ts)"
  by (subst tokens_from.simps) simp

lemma Lexer_at_0: "(Lexer s)\<lparr>i := 0\<rparr> = Lexer s"
  by (simp add: Lexer_def)



subsection \<open>Where an integer token comes from\<close>










section \<open>The claims\<close>

text \<open>
  Claim C2, as stated: the input \<^verbatim>\<open>3.\<close> gives \<^verbatim>\<open>INTEGER 3\<close>, \<^verbatim>\<open>UNKNOWN .\<close> and then
  \<^verbatim>\<open>EOF\<close>. It does not: \<^verbatim>\<open>lex_real\<close> fails for want of a digit after the dot, and
  \<^verbatim>\<open>lex_integer\<close> returns \<^verbatim>\<open>None\<close> because the digit run is followed by a dot.
\<close>

theorem C2_counterexample:
  "tokenize ''3.'' \<noteq> Some [(INTEGER, ''3''), (UNKNOWN, ''.''), (EOF, '''')]"
  unfolding tokenize_def by code_simp

text \<open>
  Claim C2, amended: the input \<^verbatim>\<open>3.\<close> gives \<^verbatim>\<open>UNKNOWN 3\<close>, \<^verbatim>\<open>UNKNOWN .\<close> and then
  \<^verbatim>\<open>EOF\<close>. No recognizer matches at the digit, so the fallback takes it as one unknown
  character.
\<close>

theorem C2_amended:
  "tokenize ''3.'' = Some [(UNKNOWN, ''3''), (UNKNOWN, ''.''), (EOF, '''')]"
  unfolding tokenize_def by code_simp

text \<open>
  Claim C7: the input \<^verbatim>\<open>while x == 10\<close> gives the keyword \<^verbatim>\<open>while\<close>, the identifier
  \<^verbatim>\<open>x\<close>, the operator \<^verbatim>\<open>==\<close> as one token, the integer \<^verbatim>\<open>10\<close>, and then \<^verbatim>\<open>EOF\<close>.
\<close>

theorem C7_while_x_eq_10:
  "tokenize ''while x == 10'' =
     Some [(KEYWORD, ''while''), (IDENTIFIER, ''x''), (OPERATOR, ''==''), (INTEGER, ''10''), (EOF, '''')]"
  unfolding tokenize_def by code_simp

text \<open>
  Claim C9: at every position \<open>p\<close> of every buffer \<open>s\<close>, a call of \<^verbatim>\<open>next_token\<close> that
  returns a token other than \<^verbatim>\<open>EOF\<close> leaves the cursor strictly beyond \<open>p\<close>; and calling
  \<^verbatim>\<open>next_token\<close> again and again from the start of \<open>s\<close> ends: it returns at most
  \<open>length s\<close> tokens that are not \<^verbatim>\<open>EOF\<close> and then \<^verbatim>\<open>EOF\<close>.
\<close>

theorem C9_progress_and_termination:
  "(fst (fst (next_token ((Lexer s)\<lparr>i := p\<rparr>))) \<noteq> EOF \<longrightarrow>
      p < i (snd (next_token ((Lexer s)\<lparr>i := p\<rparr>))))
   \<and> (\<exists>front. tokenize s = Some (front @ [(EOF, '''')]) \<and> length front \<le> length s \<and>
         list_all (\<lambda>t. fst t \<noteq> EOF) front)"
proof
  show "fst (fst (next_token ((Lexer s)\<lparr>i := p\<rparr>))) \<noteq> EOF \<longrightarrow>
      p < i (snd (next_token ((Lexer s)\<lparr>i := p\<rparr>)))"
    using next_token_advances [of "(Lexer s)\<lparr>i := p\<rparr>"] by simp
next
  show "\<exists>front. tokenize s = Some (front @ [(EOF, '''')]) \<and> length front \<le> length s \<and>
         list_all (\<lambda>t. fst t \<noteq> EOF) front"
    using tokens_from_total [of "Lexer s"] by (simp add: tokenize_def)
qed

text \<open>
  Claim C9 at the buffer \<^verbatim>\<open>a b\<close>, position 1.
\<close>

theorem C9_witness:
  "(fst (fst (next_token ((Lexer ''a b'')\<lparr>i := 1\<rparr>))) \<noteq> EOF \<and>
      1 < i (snd (next_token ((Lexer ''a b'')\<lparr>i := 1\<rparr>))))
   \<and> (\<exists>front. tokenize ''a b'' = Some (front @ [(EOF, '''')]) \<and> length front \<le> length ''a b'' \<and>
         list_all (\<lambda>t. fst t \<noteq> EOF) front)"
proof -
  have "fst (fst (next_token ((Lexer ''a b'')\<lparr>i := 1\<rparr>))) \<noteq> EOF" by code_simp
  with C9_progress_and_termination [where s = "''a b''" and p = 1] show ?thesis by blast
qed

text \<open>
  Claim C8: on the empty input the first call of \<^verbatim>\<open>next_token\<close> returns \<^verbatim>\<open>EOF\<close> with the
  empty lexeme; and at every position \<open>p\<close> of every buffer \<open>s\<close>, when a call returns
  \<^verbatim>\<open>EOF\<close> its lexeme is empty and each of the calls that follow (the call number
  \<open>k + 1\<close> after it, for every \<open>k\<close>) returns \<^verbatim>\<open>EOF\<close> with the empty lexeme again.
\<close>

theorem C8_eof_is_absorbing:
  "next_token (Lexer '''') = ((EOF, ''''), Lexer '''')
   \<and> (fst (fst (next_token ((Lexer s)\<lparr>i := p\<rparr>))) = EOF \<longrightarrow>
        fst (next_token ((Lexer s)\<lparr>i := p\<rparr>)) = (EOF, '''') \<and>
        fst (next_token (((snd \<circ> next_token) ^^ Suc k) ((Lexer s)\<lparr>i := p\<rparr>))) = (EOF, ''''))"
proof
  show "next_token (Lexer '''') = ((EOF, ''''), Lexer '''')"
    by (rule next_token_eof) (simp add: eof_def)
next
  show "fst (fst (next_token ((Lexer s)\<lparr>i := p\<rparr>))) = EOF \<longrightarrow>
        fst (next_token ((Lexer s)\<lparr>i := p\<rparr>)) = (EOF, '''') \<and>
        fst (next_token (((snd \<circ> next_token) ^^ Suc k) ((Lexer s)\<lparr>i := p\<rparr>))) = (EOF, '''')"
  proof
    let ?L = "(Lexer s)\<lparr>i := p\<rparr>"
    assume "fst (fst (next_token ?L)) = EOF"
    from next_token_EOF [OF this]
    have nt: "next_token ?L = ((EOF, []), skip_whitespace ?L)" and e: "eof (skip_whitespace ?L)"
      by simp_all
    have "((snd \<circ> next_token) ^^ Suc k) ?L = ((snd \<circ> next_token) ^^ k) (skip_whitespace ?L)"
      by (simp add: funpow_swap1 nt)
    also have "\<dots> = skip_whitespace ?L" using e by (rule next_token_at_eof_iter)
    finally show "fst (next_token ?L) = (EOF, '''') \<and>
        fst (next_token (((snd \<circ> next_token) ^^ Suc k) ?L)) = (EOF, '''')"
      using nt e by (simp add: next_token_eof)
  qed
qed

text \<open>
  Claim C8 at the buffer \<^verbatim>\<open>a\<close> followed by two blanks, position 1.
\<close>

theorem C8_witness:
  "fst (fst (next_token ((Lexer ''a  '')\<lparr>i := 1\<rparr>))) = EOF \<and>
   fst (next_token ((Lexer ''a  '')\<lparr>i := 1\<rparr>)) = (EOF, '''') \<and>
   fst (next_token (((snd \<circ> next_token) ^^ Suc 2) ((Lexer ''a  '')\<lparr>i := 1\<rparr>))) = (EOF, '''')"
proof -
  have "fst (fst (next_token ((Lexer ''a  '')\<lparr>i := 1\<rparr>))) = EOF" by code_simp
  with C8_eof_is_absorbing [where s = "''a  ''" and p = 1 and k = 2] show ?thesis by blast
qed

text \<open>
  Claim C1: for every input \<open>s\<close>, the tokens that \<^verbatim>\<open>next_token\<close> returns up to and
  including \<^verbatim>\<open>EOF\<close> partition the input: there is one run of whitespace for each token
  (the whitespace skipped before it) such that the runs and the lexemes, taken in turn,
  concatenate to \<open>s\<close>. And at every position \<open>p\<close>, the call of \<^verbatim>\<open>next_token\<close> skips the
  whitespace from \<open>p\<close> to the position that \<^verbatim>\<open>skip_whitespace\<close> reaches, and the lexeme of the
  token it returns is exactly the slice of \<open>s\<close> from there to the position it leaves the
  cursor at (the empty slice for \<^verbatim>\<open>EOF\<close>); comments and unknown characters are tokens like
  the others.
\<close>

theorem C1_lossless_partition:
  "(\<exists>ts wss. tokenize s = Some ts \<and> length wss = length ts \<and>
        list_all (list_all isspace_char) wss \<and>
        concat (map2 (\<lambda>ws t. ws @ snd t) wss ts) = s)
   \<and> p \<le> i (skip_whitespace ((Lexer s)\<lparr>i := p\<rparr>))
   \<and> i (skip_whitespace ((Lexer s)\<lparr>i := p\<rparr>)) \<le> i (snd (next_token ((Lexer s)\<lparr>i := p\<rparr>)))
   \<and> list_all isspace_char (slice s p (i (skip_whitespace ((Lexer s)\<lparr>i := p\<rparr>))))
   \<and> snd (fst (next_token ((Lexer s)\<lparr>i := p\<rparr>)))
       = slice s (i (skip_whitespace ((Lexer s)\<lparr>i := p\<rparr>))) (i (snd (next_token ((Lexer s)\<lparr>i := p\<rparr>))))"
proof -
  let ?L = "(Lexer s)\<lparr>i := p\<rparr>"
  have wf: "n ?L = length (text ?L)" and wf0: "n (Lexer s) = length (text (Lexer s))" by simp_all
  from tokens_from_partition [OF wf0]
  have "\<exists>ts wss. tokenize s = Some ts \<and> length wss = length ts \<and>
        list_all (list_all isspace_char) wss \<and>
        concat (map2 (\<lambda>ws t. ws @ snd t) wss ts) = s"
    by (simp add: tokenize_def)
  moreover from next_token_lexeme [OF wf]
  have "p \<le> i (skip_whitespace ?L)" "i (skip_whitespace ?L) \<le> i (snd (next_token ?L))"
    "snd (fst (next_token ?L)) = slice s (i (skip_whitespace ?L)) (i (snd (next_token ?L)))"
    by simp_all
  moreover from skipped_is_whitespace [OF wf]
  have "list_all isspace_char (slice s p (i (skip_whitespace ?L)))" by simp
  ultimately show ?thesis by blast
qed

text \<open>
  Claim C1 at the input \<^verbatim>\<open>x = 1 // c\<close>, with the whitespace runs written out, and at
  position 1.
\<close>

theorem C1_witness:
  "tokenize ''x = 1 // c'' =
     Some [(IDENTIFIER, ''x''), (OPERATOR, ''=''), (INTEGER, ''1''), (COMMENT, ''// c''), (EOF, '''')]
   \<and> concat (map2 (\<lambda>ws t. ws @ snd t) ['''', '' '', '' '', '' '', '''']
        [(IDENTIFIER, ''x''), (OPERATOR, ''=''), (INTEGER, ''1''), (COMMENT, ''// c''), (EOF, '''')])
      = ''x = 1 // c''
   \<and> snd (fst (next_token ((Lexer ''x = 1 // c'')\<lparr>i := 1\<rparr>)))
       = slice ''x = 1 // c'' (i (skip_whitespace ((Lexer ''x = 1 // c'')\<lparr>i := 1\<rparr>)))
           (i (snd (next_token ((Lexer ''x = 1 // c'')\<lparr>i := 1\<rparr>))))"
proof -
  have "tokenize ''x = 1 // c'' =
     Some [(IDENTIFIER, ''x''), (OPERATOR, ''=''), (INTEGER, ''1''), (COMMENT, ''// c''), (EOF, '''')]"
    unfolding tokenize_def by code_simp
  moreover have "concat (map2 (\<lambda>ws t. ws @ snd t) ['''', '' '', '' '', '' '', '''']
        [(IDENTIFIER, ''x''), (OPERATOR, ''=''), (INTEGER, ''1''), (COMMENT, ''// c''), (EOF, '''')])
      = ''x = 1 // c''"
    by simp
  ultimately show ?thesis
    using C1_lossless_partition [where s = "''x = 1 // c''" and p = 1] by blast
qed



text \<open>
  Claim C5: let the cursor be at \<^verbatim>\<open>/*\<close>, after any prefix \<open>pre\<close>, and let \<open>body\<close> be text
  in which \<^verbatim>\<open>*/\<close> does not occur. When the input ends after \<open>body\<close>,
  \<^verbatim>\<open>skip_comments\<close> returns a comment whose lexeme runs from \<^verbatim>\<open>/*\<close> to the end of the input
  and leaves the cursor at the end of the input. When \<^verbatim>\<open>*/\<close> follows \<open>body\<close>, the lexeme
  is \<^verbatim>\<open>/*\<close>, \<open>body\<close> and the closing \<^verbatim>\<open>*/\<close>, and the cursor is just after it.
\<close>

theorem C5_block_comment:
  assumes "\<not> str_in ''*/'' body"
  shows "skip_comments ((Lexer (pre @ ''/*'' @ body))\<lparr>i := length pre\<rparr>) =
           (Some (COMMENT, ''/*'' @ body),
            (Lexer (pre @ ''/*'' @ body))\<lparr>i := length (pre @ ''/*'' @ body)\<rparr>)
       \<and> skip_comments ((Lexer (pre @ ''/*'' @ body @ ''*/'' @ rest))\<lparr>i := length pre\<rparr>) =
           (Some (COMMENT, ''/*'' @ body @ ''*/''),
            (Lexer (pre @ ''/*'' @ body @ ''*/'' @ rest))\<lparr>i := length pre + length body + 4\<rparr>)"
  using skip_comments_block [OF assms] by blast

text \<open>
  Claim C5 for the comment body \<^verbatim>\<open> a * / b\<close> after the prefix \<^verbatim>\<open>x \<close>.
\<close>

theorem C5_witness:
  "\<not> str_in ''*/'' '' a * / b''
   \<and> skip_comments ((Lexer (''x '' @ ''/*'' @ '' a * / b''))\<lparr>i := length ''x ''\<rparr>) =
           (Some (COMMENT, ''/*'' @ '' a * / b''),
            (Lexer (''x '' @ ''/*'' @ '' a * / b''))\<lparr>i := length (''x '' @ ''/*'' @ '' a * / b'')\<rparr>)
   \<and> skip_comments ((Lexer (''x '' @ ''/*'' @ '' a * / b'' @ ''*/'' @ '' y''))\<lparr>i := length ''x ''\<rparr>) =
           (Some (COMMENT, ''/*'' @ '' a * / b'' @ ''*/''),
            (Lexer (''x '' @ ''/*'' @ '' a * / b'' @ ''*/'' @ '' y''))
              \<lparr>i := length ''x '' + length '' a * / b'' + 4\<rparr>)"
proof -
  have h: "\<not> str_in ''*/'' '' a * / b''" by simp
  from h C5_block_comment [OF h, of "''x ''" "'' y''"] show ?thesis by (rule conjI)
qed

text \<open>
  Claim C6: let the cursor be at a double quote, after any prefix \<open>pre\<close>, and let \<open>body\<close>
  be text with no double quote and no newline. When a newline follows \<open>body\<close>,
  \<^verbatim>\<open>lex_string\<close> returns a string token whose lexeme is the opening quote and \<open>body\<close>, with
  no closing quote, and leaves the cursor on the newline. When the input ends after
  \<open>body\<close>, the token is the same and the cursor is at the end. When a double quote follows
  \<open>body\<close>, the lexeme ends with it and the cursor is just after it.
\<close>

theorem C6_string_scan:
  assumes "list_all (\<lambda>c. c \<noteq> CHR 0x22 \<and> c \<noteq> CHR 0x0A) body"
  shows "lex_string ((Lexer (pre @ CHR 0x22 # body @ CHR 0x0A # rest))\<lparr>i := length pre\<rparr>) =
           (Some (STRING, CHR 0x22 # body),
            (Lexer (pre @ CHR 0x22 # body @ CHR 0x0A # rest))\<lparr>i := length pre + length body + 1\<rparr>)
       \<and> peek ((Lexer (pre @ CHR 0x22 # body @ CHR 0x0A # rest))\<lparr>i := length pre + length body + 1\<rparr>) 0
           = [CHR 0x0A]
       \<and> lex_string ((Lexer (pre @ CHR 0x22 # body))\<lparr>i := length pre\<rparr>) =
           (Some (STRING, CHR 0x22 # body),
            (Lexer (pre @ CHR 0x22 # body))\<lparr>i := length (pre @ CHR 0x22 # body)\<rparr>)
       \<and> lex_string ((Lexer (pre @ CHR 0x22 # body @ CHR 0x22 # rest))\<lparr>i := length pre\<rparr>) =
           (Some (STRING, CHR 0x22 # body @ [CHR 0x22]),
            (Lexer (pre @ CHR 0x22 # body @ CHR 0x22 # rest))\<lparr>i := length pre + length body + 2\<rparr>)"
proof -
  have "lex_string ((Lexer (pre @ CHR 0x22 # body @ CHR 0x0A # rest))\<lparr>i := length pre\<rparr>) =
           (Some (STRING, CHR 0x22 # body),
            (Lexer (pre @ CHR 0x22 # body @ CHR 0x0A # rest))\<lparr>i := length pre + length body + 1\<rparr>)"
    using lex_string_run [OF assms, of "CHR 0x0A # rest" pre] by simp
  moreover have "peek ((Lexer (pre @ CHR 0x22 # body @ CHR 0x0A # rest))\<lparr>i := length pre + length body + 1\<rparr>) 0
           = [CHR 0x0A]"
    by (simp add: peek_at nth_append)
  moreover have "lex_string ((Lexer (pre @ CHR 0x22 # body))\<lparr>i := length pre\<rparr>) =
           (Some (STRING, CHR 0x22 # body),
            (Lexer (pre @ CHR 0x22 # body))\<lparr>i := length (pre @ CHR 0x22 # body)\<rparr>)"
    using lex_string_run [OF assms, of "[]" pre] by simp
  moreover have "lex_string ((Lexer (pre @ CHR 0x22 # body @ CHR 0x22 # rest))\<lparr>i := length pre\<rparr>) =
           (Some (STRING, CHR 0x22 # body @ [CHR 0x22]),
            (Lexer (pre @ CHR 0x22 # body @ CHR 0x22 # rest))\<lparr>i := length pre + length body + 2\<rparr>)"
    using lex_string_run [OF assms, of "CHR 0x22 # rest" pre] by simp
  ultimately show ?thesis by blast
qed

text \<open>
  Claim C6 for the string body \<^verbatim>\<open>abc\<close> after the prefix \<^verbatim>\<open>x \<close>.
\<close>

theorem C6_witness:
  "list_all (\<lambda>c. c \<noteq> CHR 0x22 \<and> c \<noteq> CHR 0x0A) ''abc''
   \<and> lex_string ((Lexer (''x '' @ CHR 0x22 # ''abc'' @ CHR 0x0A # ''y''))\<lparr>i := length ''x ''\<rparr>) =
           (Some (STRING, CHR 0x22 # ''abc''),
            (Lexer (''x '' @ CHR 0x22 # ''abc'' @ CHR 0x0A # ''y''))\<lparr>i := length ''x '' + length ''abc'' + 1\<rparr>)
       \<and> peek ((Lexer (''x '' @ CHR 0x22 # ''abc'' @ CHR 0x0A # ''y''))\<lparr>i := length ''x '' + length ''abc'' + 1\<rparr>) 0
           = [CHR 0x0A]
       \<and> lex_string ((Lexer (''x '' @ CHR 0x22 # ''abc''))\<lparr>i := length ''x ''\<rparr>) =
           (Some (STRING, CHR 0x22 # ''abc''),
            (Lexer (''x '' @ CHR 0x22 # ''abc''))\<lparr>i := length (''x '' @ CHR 0x22 # ''abc'')\<rparr>)
       \<and> lex_string ((Lexer (''x '' @ CHR 0x22 # ''abc'' @ CHR 0x22 # ''y''))\<lparr>i := length ''x ''\<rparr>) =
           (Some (STRING, CHR 0x22 # ''abc'' @ [CHR 0x22]),
            (Lexer (''x '' @ CHR 0x22 # ''abc'' @ CHR 0x22 # ''y''))\<lparr>i := length ''x '' + length ''abc'' + 2\<rparr>)"
proof -
  have h: "list_all (\<lambda>c. c \<noteq> CHR 0x22 \<and> c \<noteq> CHR 0x0A) ''abc''" by simp
  from h C6_string_scan [OF h, of "''x ''" "''y''"] show ?thesis by (rule conjI)
qed



text \<open>
  Claim C10: let \<open>ds\<close> be a run of digits whose first is one of \<^verbatim>\<open>1\<close> to \<^verbatim>\<open>9\<close>, followed at
  once by a letter \<open>c\<close> and any text \<open>rest\<close>. Then \<^verbatim>\<open>next_token\<close> at the run returns the
  integer token with lexeme \<open>ds\<close>, and the call after it returns the identifier, or the
  keyword when it is one, made of \<open>c\<close> and the longest run after it of characters that
  \<^verbatim>\<open>is_alnum\<close> accepts or that are underscores; so the token stream of \<open>ds\<close>, \<open>c\<close>,
  \<open>rest\<close> starts with these two tokens and neither is \<^verbatim>\<open>UNKNOWN\<close>. The integer recognizer
  keeps the digit run whenever what follows is nothing, or neither a digit nor a dot, and
  returns \<^verbatim>\<open>None\<close> when a dot follows.
\<close>

theorem C10_digits_then_letter:
  fixes ds rest pre after :: string and c :: char
  assumes "ds \<noteq> []" and "hd ds \<in> set ''123456789''" and "list_all isdigit_char ds"
    and "isalpha_char c"
  defines "w \<equiv> c # takeWhile (\<lambda>x. isalnum_char x \<or> x = CHR ''_'') rest"
  shows "next_token ((Lexer (pre @ ds @ c # rest))\<lparr>i := length pre\<rparr>)
           = ((INTEGER, ds), (Lexer (pre @ ds @ c # rest))\<lparr>i := length pre + length ds\<rparr>)
       \<and> next_token ((Lexer (pre @ ds @ c # rest))\<lparr>i := length pre + length ds\<rparr>)
           = ((if w \<in> KEYWORDS then KEYWORD else IDENTIFIER, w),
              (Lexer (pre @ ds @ c # rest))\<lparr>i := length pre + length ds + length w\<rparr>)
       \<and> (\<exists>more. tokenize (ds @ c # rest)
             = Some ((INTEGER, ds) # (if w \<in> KEYWORDS then KEYWORD else IDENTIFIER, w) # more))
       \<and> (after = [] \<or> (\<not> isdigit_char (hd after) \<and> hd after \<noteq> CHR ''.'') \<longrightarrow>
            lex_integer ((Lexer (pre @ ds @ after))\<lparr>i := length pre\<rparr>)
              = (Some (INTEGER, ds), (Lexer (pre @ ds @ after))\<lparr>i := length pre + length ds\<rparr>))
       \<and> lex_integer ((Lexer (pre @ ds @ CHR ''.'' # after))\<lparr>i := length pre\<rparr>)
            = (None, (Lexer (pre @ ds @ CHR ''.'' # after))\<lparr>i := length pre\<rparr>)"
proof -
  have stop: "c # rest = [] \<or> (\<not> isdigit_char (hd (c # rest)) \<and> hd (c # rest) \<noteq> CHR ''.'')"
    using assms(4) alpha_not_digit [of c] alpha_not_punct [of c] by simp
  have one: "next_token ((Lexer (pre @ ds @ c # rest))\<lparr>i := length pre\<rparr>)
           = ((INTEGER, ds), (Lexer (pre @ ds @ c # rest))\<lparr>i := length pre + length ds\<rparr>)" for pre
    using assms(3,1,2) stop by (rule next_token_nonzero_integer)
  have "next_token ((Lexer ((pre @ ds) @ c # rest))\<lparr>i := length (pre @ ds)\<rparr>)
           = ((if w \<in> KEYWORDS then KEYWORD else IDENTIFIER, w),
              (Lexer ((pre @ ds) @ c # rest))\<lparr>i := length (pre @ ds) + 1
                 + length (takeWhile (\<lambda>x. isalnum_char x \<or> x = CHR ''_'') rest)\<rparr>)" for pre
    unfolding w_def using assms(4) by (rule next_token_identifier)
  then have two: "next_token ((Lexer (pre @ ds @ c # rest))\<lparr>i := length pre + length ds\<rparr>)
           = ((if w \<in> KEYWORDS then KEYWORD else IDENTIFIER, w),
              (Lexer (pre @ ds @ c # rest))\<lparr>i := length pre + length ds + length w\<rparr>)" for pre
    by (simp add: w_def)
  let ?s = "ds @ c # rest"
  let ?t2 = "(if w \<in> KEYWORDS then KEYWORD else IDENTIFIER, w)"
  from one [of "[]"] have n1: "next_token (Lexer ?s) = ((INTEGER, ds), (Lexer ?s)\<lparr>i := length ds\<rparr>)"
    by (simp add: Lexer_at_0)
  from two [of "[]"] have n2: "next_token ((Lexer ?s)\<lparr>i := length ds\<rparr>)
      = (?t2, (Lexer ?s)\<lparr>i := length ds + length w\<rparr>)"
    by simp
  from tokens_from_total [of "(Lexer ?s)\<lparr>i := length ds + length w\<rparr>"]
  obtain more where m: "tokens_from ((Lexer ?s)\<lparr>i := length ds + length w\<rparr>) = Some more"
    by blast
  have "fst ?t2 \<noteq> EOF" by simp
  with n2 have t2: "tokens_from ((Lexer ?s)\<lparr>i := length ds\<rparr>) = Some (?t2 # more)"
    using m by (rule tokens_from_step)
  have "fst (INTEGER, ds) \<noteq> EOF" by simp
  with n1 have "tokens_from (Lexer ?s) = Some ((INTEGER, ds) # ?t2 # more)"
    using t2 by (rule tokens_from_step)
  then have "\<exists>more. tokenize ?s = Some ((INTEGER, ds) # ?t2 # more)"
    by (simp add: tokenize_def)
  moreover have "lex_integer ((Lexer (pre @ ds @ after))\<lparr>i := length pre\<rparr>)
              = (Some (INTEGER, ds), (Lexer (pre @ ds @ after))\<lparr>i := length pre + length ds\<rparr>)"
    if "after = [] \<or> (\<not> isdigit_char (hd after) \<and> hd after \<noteq> CHR ''.'')"
    using assms(3,1,2) that by (rule lex_integer_nonzero)
  moreover have "lex_integer ((Lexer (pre @ ds @ CHR ''.'' # after))\<lparr>i := length pre\<rparr>)
            = (None, (Lexer (pre @ ds @ CHR ''.'' # after))\<lparr>i := length pre\<rparr>)"
    using assms(3,1,2) by (rule lex_integer_dot)
  ultimately show ?thesis using one [of pre] two [of pre] by blast
qed

text \<open>
  Claim C10 at the input \<^verbatim>\<open>12ab_1 x\<close>.
\<close>

theorem C10_witness:
  "''12'' \<noteq> [] \<and> hd ''12'' \<in> set ''123456789'' \<and> list_all isdigit_char ''12''
   \<and> isalpha_char CHR ''a''
   \<and> (\<exists>more. tokenize (''12'' @ CHR ''a'' # ''b_1 x'')
         = Some ((INTEGER, ''12'') # (IDENTIFIER, ''ab_1'') # more))"
proof -
  have h1: "''12'' \<noteq> []" and h2: "hd ''12'' \<in> set ''123456789''"
    and h3: "list_all isdigit_char ''12''" and h4: "isalpha_char CHR ''a''"
    by (simp_all add: isdigit_char_def isalpha_char_def)
  have w: "CHR ''a'' # takeWhile (\<lambda>x. isalnum_char x \<or> x = CHR ''_'') ''b_1 x'' = ''ab_1''"
    by (simp add: isalnum_char_def isalpha_char_def isdigit_char_def)
  have k: "''ab_1'' \<notin> KEYWORDS" by (simp add: KEYWORDS_def)
  from C10_digits_then_letter [OF h1 h2 h3 h4, where pre = "[]" and rest = "''b_1 x''"]
  have "\<exists>more. tokenize (''12'' @ CHR ''a'' # ''b_1 x'')
         = Some ((INTEGER, ''12'') # (IDENTIFIER, ''ab_1'') # more)"
    unfolding w using k by simp
  with h1 h2 h3 h4 show ?thesis by blast
qed

end
